theory Spec2Isabelle
  imports Complex_Main "HOL-Library.Multiset" "HOL-Library.List_Lexorder" "HOL-Library.AList"
begin

section \<open>Annotated hypergraphs: the incidence-list store of ahyper/annotated_hypergraph.py\<close>

subsection \<open>Incidence records and the store\<close>

text \<open>
  Node ids, edge ids and role labels are Python integers (the integer role codes of
  \<^verbatim>\<open>from_incidence\<close>, the integer ids that \<^verbatim>\<open>relabel\<close> writes); edge metadata is an
  optional list of key/value pairs.
\<close>

type_synonym metadata = "(string \<times> string) list"

text \<open>
  Modelled from the spec: class \<^verbatim>\<open>NodeEdgeIncidence\<close> is defined in ahyper/utils.py, which is
  not part of the sources at hand; the spec gives its fields as
  \<^verbatim>\<open>(node_id, role, edge_id, metadata)\<close>, and the code reads and writes them as
  \<^verbatim>\<open>nid\<close>, \<^verbatim>\<open>role\<close>, \<^verbatim>\<open>eid\<close>, \<^verbatim>\<open>meta\<close>.
\<close>

record incidence =
  nid :: int
  role :: int
  eid :: int
  meta :: "metadata option"

definition NodeEdgeIncidence :: "int \<Rightarrow> int \<Rightarrow> int \<Rightarrow> metadata option \<Rightarrow> incidence" where
  "NodeEdgeIncidence v r e md = \<lparr>nid = v, role = r, eid = e, meta = md\<rparr>"

datatype py_error = KeyError | ValueError | IndexError | TypeError | AssertionError | FormatError

text \<open>The attributes of \<^verbatim>\<open>self\<close>.\<close>

record hypergraph =
  self_IL :: "incidence list"
  self_roles :: "int list"
  self_node_list :: "int list"
  self_edge_list :: "int list"
  self_n :: nat
  self_m :: nat
  self_R :: "real list list option"
  self_sort_key :: "string option"

subsection \<open>Library functions the code calls\<close>

text \<open>
  \<^verbatim>\<open>np.unique\<close>: the sorted distinct values. Ids are taken to fit one integer type of numpy
  (a list mixing ids below and from \<open>2^63\<close> would be turned into float64 by numpy).
\<close>

definition np_unique :: "int list \<Rightarrow> int list" where
  "np_unique xs = remdups (sort xs)"

text \<open>
  \<^verbatim>\<open>list.sort(key=..., reverse=...)\<close>: a stable sort; with \<^verbatim>\<open>reverse=True\<close> the order is
  descending and elements with equal keys keep their original order.
\<close>

definition py_sort :: "('a \<Rightarrow> 'k::linorder) \<Rightarrow> bool \<Rightarrow> 'a list \<Rightarrow> 'a list" where
  "py_sort key reverse xs = (if reverse then rev (sort_key key (rev xs)) else sort_key key xs)"

text \<open>\<^verbatim>\<open>itertools.groupby\<close>: maximal runs of consecutive elements with equal key.\<close>

function groupby :: "'a list \<Rightarrow> ('a \<Rightarrow> 'k) \<Rightarrow> ('k \<times> 'a list) list" where
  "groupby [] key = []"
| "groupby (x # xs) key =
     (key x, x # takeWhile (\<lambda>y. key y = key x) xs)
       # groupby (dropWhile (\<lambda>y. key y = key x) xs) key"
  by pat_completeness auto
termination
  by (relation "measure (\<lambda>(xs, key). length xs)") (auto simp: length_dropWhile_le less_Suc_eq_le)

text \<open>
  A Python dict keeps insertion order; storing under an existing key replaces the value in
  place. A dict is an association list with distinct keys, built by successive stores.
\<close>

definition dict_of :: "('k \<times> 'v) list \<Rightarrow> ('k \<times> 'v) list" where
  "dict_of kvs = foldl (\<lambda>d (k, v). AList.update k v d) [] kvs"

definition getitem :: "('k \<times> 'v) list \<Rightarrow> 'k \<Rightarrow> py_error + 'v" where
  "getitem d k = (case map_of d k of None \<Rightarrow> Inl KeyError | Some v \<Rightarrow> Inr v)"

text \<open>
  \<^verbatim>\<open>np.random.randint(0, high)\<close>: raises ValueError when the range is empty; otherwise every
  value below \<^verbatim>\<open>high\<close> can be drawn. The first argument is the raw output of the random
  source for this draw.
\<close>

definition randint :: "nat \<Rightarrow> nat \<Rightarrow> py_error + nat" where
  "randint raw high = (if high = 0 then Inl ValueError else Inr (raw mod high))"

text \<open>\<^verbatim>\<open>"_".join(by)\<close>\<close>

fun str_join :: "string \<Rightarrow> string list \<Rightarrow> string" where
  "str_join sep [] = []"
| "str_join sep [s] = s"
| "str_join sep (s # t # ss) = s @ sep @ str_join sep (t # ss)"

subsection \<open>set_states and sort\<close>

definition set_states :: "hypergraph \<Rightarrow> hypergraph" where
  "set_states h =
     (let node_list = np_unique (map nid (self_IL h));
          edge_list = np_unique (map eid (self_IL h))
      in h\<lparr>self_node_list := node_list,
           self_edge_list := edge_list,
           self_n := length node_list,
           self_m := length edge_list,
           self_R := None,
           self_sort_key := None\<rparr>)"

text \<open>The argument \<^verbatim>\<open>by\<close> of \<^verbatim>\<open>sort\<close>: a choice from 'nid', 'eid', 'role', or a list of them.\<close>

datatype field = Nid | Eid | Role

fun field_name :: "field \<Rightarrow> string" where
  "field_name Nid = ''nid''"
| "field_name Eid = ''eid''"
| "field_name Role = ''role''"

fun getattr :: "incidence \<Rightarrow> field \<Rightarrow> int" where
  "getattr x Nid = nid x"
| "getattr x Eid = eid x"
| "getattr x Role = role x"

definition sort_IL :: "field list \<Rightarrow> bool \<Rightarrow> hypergraph \<Rightarrow> hypergraph" where
  "sort_IL sort_by reverse h =
     (let sort_key = str_join ''_'' (map field_name sort_by)
      in if self_sort_key h = Some sort_key then h
         else h\<lparr>self_IL := py_sort (\<lambda>x. map (getattr x) sort_by) reverse (self_IL h)\<rparr>)"

text \<open>The constructor \<^verbatim>\<open>__init__(IL, roles)\<close>.\<close>

definition AnnotatedHypergraph :: "incidence list \<Rightarrow> int list \<Rightarrow> hypergraph" where
  "AnnotatedHypergraph il rs =
     sort_IL [Eid] False
       (set_states \<lparr>self_IL = il, self_roles = rs, self_node_list = [], self_edge_list = [],
                    self_n = 0, self_m = 0, self_R = None, self_sort_key = None\<rparr>)"

subsection \<open>The degeneracy-avoiding sampler\<close>

definition check_degenerate :: "incidence list \<Rightarrow> bool" where
  "check_degenerate E = (card (set (map nid E)) \<noteq> length E)"

text \<open>
  One pass through the body of the \<^verbatim>\<open>while\<close> loop. The four numbers are the raw outputs of
  the random source for the draws of \<^verbatim>\<open>i\<close>, \<^verbatim>\<open>j\<close>, \<^verbatim>\<open>k\<close> and \<^verbatim>\<open>l\<close>.
\<close>

type_synonym draw = "nat \<times> nat \<times> nat \<times> nat"

type_synonym edges = "(int \<times> incidence list) list"

datatype attempt = Accepted edges | Rejected | Raised py_error

definition swap_proposal :: "incidence list \<Rightarrow> incidence list \<Rightarrow> nat \<Rightarrow> nat
                               \<Rightarrow> incidence list \<times> incidence list" where
  "swap_proposal E0 E1 k l =
     (let E0_prop = E0[k := NodeEdgeIncidence (nid (E1 ! l)) (role (E0 ! k))
                                             (eid (E0 ! k)) (meta (E0 ! k))];
          E1_prop = E1[l := NodeEdgeIncidence (nid (E0 ! k)) (role (E1 ! l))
                                             (eid (E1 ! l)) (meta (E1 ! l))]
      in (E0_prop, E1_prop))"

definition proposal :: "bool \<Rightarrow> nat \<Rightarrow> edges \<Rightarrow> draw \<Rightarrow> attempt" where
  "proposal role_labels m edges d =
     (case d of (ri, rj, rk, rl) \<Rightarrow>
     (case randint ri m of Inl err \<Rightarrow> Raised err | Inr i \<Rightarrow>
     (case randint rj m of Inl err \<Rightarrow> Raised err | Inr j \<Rightarrow>
     (case getitem edges (int i) of Inl err \<Rightarrow> Raised err | Inr E0 \<Rightarrow>
     (case getitem edges (int j) of Inl err \<Rightarrow> Raised err | Inr E1 \<Rightarrow>
     (case randint rk (length E0) of Inl err \<Rightarrow> Raised err | Inr k \<Rightarrow>
     (case randint rl (length E1) of Inl err \<Rightarrow> Raised err | Inr l \<Rightarrow>
        if role_labels \<and> role (E0 ! k) \<noteq> role (E1 ! l) then Rejected
        else (case swap_proposal E0 E1 k l of (E0_prop, E1_prop) \<Rightarrow>
          if check_degenerate E0_prop \<or> check_degenerate E1_prop then Rejected
          else Accepted (AList.update (int j) E1_prop
                          (AList.update (int i) E0_prop edges))))))))))"

text \<open>
  The \<^verbatim>\<open>while N < n_steps\<close> loop. The source loops for as long as the condition holds; the
  list of draws is the supply of randomness, and running out of it before the condition
  fails is the outcome \<open>Spinning\<close>. The state is \<^verbatim>\<open>(edges, N, k_rejected)\<close>.
\<close>

datatype 'a outcome = Returned 'a | Raises py_error | Spinning 'a

fun mcmc_loop :: "bool \<Rightarrow> nat \<Rightarrow> int \<Rightarrow> draw list \<Rightarrow> edges \<times> nat \<times> nat
                    \<Rightarrow> (edges \<times> nat \<times> nat) outcome" where
  "mcmc_loop role_labels m n_steps [] (edges, N, k_rejected) =
     (if int N < n_steps then Spinning (edges, N, k_rejected)
      else Returned (edges, N, k_rejected))"
| "mcmc_loop role_labels m n_steps (d # ds) (edges, N, k_rejected) =
     (if int N < n_steps then
        (case proposal role_labels m edges d of
           Raised err \<Rightarrow> Raises err
         | Rejected \<Rightarrow> mcmc_loop role_labels m n_steps ds (edges, N, k_rejected + 1)
         | Accepted edges' \<Rightarrow> mcmc_loop role_labels m n_steps ds (edges', N + 1, k_rejected))
      else Returned (edges, N, k_rejected))"

text \<open>\<^verbatim>\<open>edges = {k: list(v) for k, v in groupby(self.IL, lambda e: e.eid)}\<close>\<close>

definition group_edges :: "hypergraph \<Rightarrow> edges" where
  "group_edges h = dict_of (groupby (self_IL h) eid)"

text \<open>
  \<^verbatim>\<open>[e for E in edges for e in edges[E]]\<close>: iterating a dict and looking each key up
  yields its values in insertion order.
\<close>

definition incidences_of :: "edges \<Rightarrow> incidence list" where
  "incidences_of edges = concat (map snd edges)"

definition degeneracy_avoiding_MCMC ::
    "int \<Rightarrow> bool \<Rightarrow> draw list \<Rightarrow> hypergraph \<Rightarrow> hypergraph outcome" where
  "degeneracy_avoiding_MCMC n_steps role_labels draws h =
     (let h1 = sort_IL [Eid, Role] False h;
          edges = group_edges h1
      in case mcmc_loop role_labels (self_m h1) n_steps draws (edges, 0, 0) of
           Raises err \<Rightarrow> Raises err
         | Spinning (edges', N, k) \<Rightarrow> Spinning (h1\<lparr>self_IL := incidences_of edges'\<rparr>)
         | Returned (edges', N, k) \<Rightarrow> Returned (h1\<lparr>self_IL := incidences_of edges'\<rparr>))"

subsection \<open>Aggregation: Counter, edge dimensions, node degrees\<close>

text \<open>
  \<^verbatim>\<open>defaultdict\<close> and \<^verbatim>\<open>Counter\<close> reads: a missing key reads as the default. \<^verbatim>\<open>Counter(xs)\<close>
  counts in order of first occurrence.
\<close>

definition dd_get :: "('k \<times> 'v) list \<Rightarrow> 'k \<Rightarrow> 'v \<Rightarrow> 'v" where
  "dd_get d k dflt = (case map_of d k of None \<Rightarrow> dflt | Some v \<Rightarrow> v)"

definition Counter :: "'a list \<Rightarrow> ('a \<times> nat) list" where
  "Counter xs = foldl (\<lambda>c x. AList.update x (dd_get c x 0 + 1) c) [] xs"

text \<open>A comprehension whose element expression may raise: the first error wins.\<close>

fun traverse :: "('a \<Rightarrow> py_error + 'b) \<Rightarrow> 'a list \<Rightarrow> py_error + 'b list" where
  "traverse f [] = Inr []"
| "traverse f (x # xs) =
     (case f x of Inl err \<Rightarrow> Inl err
      | Inr y \<Rightarrow> (case traverse f xs of Inl err \<Rightarrow> Inl err | Inr ys \<Rightarrow> Inr (y # ys)))"

text \<open>A \<^verbatim>\<open>for\<close> loop over a list whose body updates a state and may raise.\<close>

fun foldM :: "('a \<Rightarrow> 's \<Rightarrow> py_error + 's) \<Rightarrow> 'a list \<Rightarrow> 's \<Rightarrow> py_error + 's" where
  "foldM f [] s = Inr s"
| "foldM f (x # xs) s = (case f x s of Inl err \<Rightarrow> Inl err | Inr s' \<Rightarrow> foldM f xs s')"

definition nth_err :: "'a list \<Rightarrow> nat \<Rightarrow> py_error + 'a" where
  "nth_err xs i = (if i < length xs then Inr (xs ! i) else Inl IndexError)"

text \<open>\<^verbatim>\<open>edge_dimensions(by_role=False)\<close>: the dict and the store, whose list is now role-sorted.\<close>

definition edge_dimensions :: "hypergraph \<Rightarrow> (int \<times> nat) list \<times> hypergraph" where
  "edge_dimensions h =
     (let h1 = sort_IL [Role] False h
      in (Counter (map eid (self_IL h1)), h1))"

text \<open>
  The role-grouped aggregate shared by \<^verbatim>\<open>edge_dimensions(by_role=True)\<close> and
  \<^verbatim>\<open>node_degrees(by_role=True)\<close>, for the attribute \<open>attr\<close> counted and the list \<open>ks\<close> of
  keys reported: \<^verbatim>\<open>br[role]\<close> raises KeyError for a declared role that no incidence holds.
  \<^verbatim>\<open>DT\<close> has every declared role as a key, so \<^verbatim>\<open>DT[role]\<close> cannot raise.
\<close>

definition by_role_counts ::
    "(incidence \<Rightarrow> int) \<Rightarrow> int list \<Rightarrow> hypergraph \<Rightarrow> py_error + (int \<times> (int \<times> nat) list) list" where
  "by_role_counts attr ks h =
     (let br = dict_of (groupby (self_IL h) role)
      in case traverse (\<lambda>r. case getitem br r of Inl err \<Rightarrow> Inl err
                                | Inr g \<Rightarrow> Inr (r, Counter (map attr g))) (self_roles h) of
           Inl err \<Rightarrow> Inl err
         | Inr dts \<Rightarrow>
             (let DT = dict_of dts
              in Inr (dict_of (map (\<lambda>k. (k, dict_of (map (\<lambda>r. (r, dd_get (dd_get DT r []) k 0))
                                                       (self_roles h)))) ks))))"

definition edge_dimensions_by_role ::
    "hypergraph \<Rightarrow> py_error + ((int \<times> (int \<times> nat) list) list \<times> hypergraph)" where
  "edge_dimensions_by_role h =
     (let h1 = sort_IL [Role] False h
      in case by_role_counts eid (self_edge_list h1) h1 of
           Inl err \<Rightarrow> Inl err | Inr D \<Rightarrow> Inr (D, h1))"





subsection \<open>The role-interaction matrix and the weighted projection\<close>

text \<open>
  A matrix is the list of its rows. The entries and the weights are float64 numbers, taken
  as the real numbers they denote. \<^verbatim>\<open>np.ones(shape=(k, k))\<close>:
\<close>

definition np_ones :: "nat \<Rightarrow> real list list" where
  "np_ones k = replicate k (replicate k 1)"


text \<open>
  \<^verbatim>\<open>if self.R is None: self.assign_role_interaction_matrix()\<close>, the first step of both
  \<^verbatim>\<open>to_weighted_projection\<close> and \<^verbatim>\<open>null_expectation_matrix\<close>. The call without argument
  cannot raise.
\<close>

definition default_R :: "hypergraph \<Rightarrow> hypergraph" where
  "default_R h =
     (case self_R h of
        None \<Rightarrow> h\<lparr>self_R := Some (np_ones (length (self_roles h)))\<rparr>
      | Some r \<Rightarrow> h)"

text \<open>\<^verbatim>\<open>get_IL\<close>: a sorted copy, by descending edge id.\<close>

definition get_IL :: "hypergraph \<Rightarrow> incidence list" where
  "get_IL h = py_sort eid True (self_IL h)"

text \<open>\<^verbatim>\<open>role_map = {role: ix for ix, role in enumerate(self.roles)}\<close>\<close>

definition role_map :: "hypergraph \<Rightarrow> (int \<times> nat) list" where
  "role_map h = dict_of (zip (self_roles h) [0..<length (self_roles h)])"

text \<open>\<^verbatim>\<open>self.R[role_map[a.role], role_map[b.role]]\<close>\<close>

definition interaction :: "hypergraph \<Rightarrow> incidence \<Rightarrow> incidence \<Rightarrow> py_error + real" where
  "interaction h a b =
     (case getitem (role_map h) (role a) of Inl err \<Rightarrow> Inl err
      | Inr p \<Rightarrow> (case getitem (role_map h) (role b) of Inl err \<Rightarrow> Inl err
      | Inr q \<Rightarrow> (case self_R h of None \<Rightarrow> Inl TypeError
      | Some r \<Rightarrow> (case nth_err r p of Inl err \<Rightarrow> Inl err
      | Inr row \<Rightarrow> nth_err row q))))"

text \<open>
  \<^verbatim>\<open>itertools.permutations(edge, 2)\<close>: the ordered pairs of elements at distinct positions, in
  lexicographic order of the positions.
\<close>

definition permutations2 :: "'a list \<Rightarrow> ('a \<times> 'a) list" where
  "permutations2 xs =
     concat (map (\<lambda>i. map (\<lambda>j. (xs ! i, xs ! j)) (filter (\<lambda>j. j \<noteq> i) [0..<length xs]))
                 [0..<length xs])"

text \<open>
  The nested \<^verbatim>\<open>defaultdict\<close> of weights and \<^verbatim>\<open>weighted_edges[u][v] += w\<close>; reading
  \<^verbatim>\<open>weighted_edges[u][v]\<close> gives \<open>0.0\<close> where nothing was added. The source adds in floating
  point: \<open>fadd x y\<close> is the float64 sum of \<open>x\<close> and \<open>y\<close>, rounding included. Nothing is
  assumed of it; where every sum is exact it is \<open>(+)\<close>.
\<close>

type_synonym weights = "(int \<times> (int \<times> real) list) list"

type_synonym float_add = "real \<Rightarrow> real \<Rightarrow> real"

definition add_weight :: "float_add \<Rightarrow> int \<Rightarrow> int \<Rightarrow> real \<Rightarrow> weights \<Rightarrow> weights" where
  "add_weight fadd u v w d =
     (let inner = dd_get d u []
      in AList.update u (AList.update v (fadd (dd_get inner v 0) w) inner) d)"

definition weight_at :: "weights \<Rightarrow> int \<Rightarrow> int \<Rightarrow> real" where
  "weight_at d u v = dd_get (dd_get d u []) v 0"

text \<open>
  \<^verbatim>\<open>to_weighted_projection()\<close> with no output flag set: the nested dict and the store, whose
  \<^verbatim>\<open>R\<close> is now assigned.
\<close>

definition to_weighted_projection ::
    "float_add \<Rightarrow> hypergraph \<Rightarrow> py_error + (weights \<times> hypergraph)" where
  "to_weighted_projection fadd h =
     (let h1 = default_R h;
          pairs = concat (map (\<lambda>(k, edge). permutations2 edge) (groupby (get_IL h1) eid))
      in case foldM (\<lambda>(a, b) d. case interaction h1 a b of Inl err \<Rightarrow> Inl err
                                   | Inr w \<Rightarrow> Inr (add_weight fadd (nid a) (nid b) w d)) pairs [] of
           Inl err \<Rightarrow> Inl err
         | Inr weighted_edges \<Rightarrow> Inr (weighted_edges, h1))"

text \<open>
  The output flags: more than one of \<^verbatim>\<open>use_networkx\<close>, \<^verbatim>\<open>use_graphtool\<close>, \<^verbatim>\<open>as_matrix\<close> is
  refused before anything is computed; \<^verbatim>\<open>as_matrix=True\<close> reads the dict at every pair of
  \<^verbatim>\<open>node_list\<close>.
\<close>

definition output_flags_ok :: "bool \<Rightarrow> bool \<Rightarrow> bool \<Rightarrow> bool" where
  "output_flags_ok use_networkx use_graphtool as_matrix =
     (\<not> (length (filter id [use_networkx, use_graphtool, as_matrix]) > 1))"

definition to_weighted_projection_matrix ::
    "float_add \<Rightarrow> hypergraph \<Rightarrow> py_error + (real list list \<times> hypergraph)" where
  "to_weighted_projection_matrix fadd h =
     (case to_weighted_projection fadd h of Inl err \<Rightarrow> Inl err
      | Inr (weighted_edges, h1) \<Rightarrow>
          (case traverse (\<lambda>i. traverse (\<lambda>j.
                    case nth_err (self_node_list h1) i of Inl err \<Rightarrow> Inl err
                    | Inr u \<Rightarrow> (case nth_err (self_node_list h1) j of Inl err \<Rightarrow> Inl err
                    | Inr v \<Rightarrow> Inr (weight_at weighted_edges u v))) [0..<self_n h1])
                 [0..<self_n h1] of
             Inl err \<Rightarrow> Inl err | Inr M \<Rightarrow> Inr (M, h1)))"


subsection \<open>Maintenance: degeneracies, singletons, relabelling\<close>

text \<open>\<^verbatim>\<open>count_degeneracies\<close>: the count, and the store whose list is now edge-sorted.\<close>

definition count_degeneracies :: "hypergraph \<Rightarrow> nat \<times> hypergraph" where
  "count_degeneracies h =
     (let h1 = sort_IL [Eid] False h;
          by_edges = map snd (groupby (self_IL h1) eid)
      in (sum_list (map (\<lambda>E. if check_degenerate E then 1 else 0) by_edges), h1))"

text \<open>
  \<^verbatim>\<open>relabel_by_field(D, field)\<close>: sorts the list by the field and overwrites the field of every
  incidence with a running label that starts from \<^verbatim>\<open>j = 0\<close>, \<^verbatim>\<open>old = 0\<close>.
\<close>

fun setattr :: "incidence \<Rightarrow> field \<Rightarrow> int \<Rightarrow> incidence" where
  "setattr x Nid v = x\<lparr>nid := v\<rparr>"
| "setattr x Eid v = x\<lparr>eid := v\<rparr>"
| "setattr x Role v = x\<lparr>role := v\<rparr>"

fun relabel_loop :: "field \<Rightarrow> int \<Rightarrow> int \<Rightarrow> incidence list \<Rightarrow> incidence list" where
  "relabel_loop fld j old [] = []"
| "relabel_loop fld j old (e # es) =
     (if getattr e fld \<noteq> old
      then setattr e fld (j + 1) # relabel_loop fld (j + 1) (getattr e fld) es
      else setattr e fld j # relabel_loop fld j old es)"

definition relabel_by_field :: "incidence list \<Rightarrow> field \<Rightarrow> incidence list" where
  "relabel_by_field D fld = relabel_loop fld 0 0 (py_sort (\<lambda>x. getattr x fld) False D)"

definition relabel :: "hypergraph \<Rightarrow> hypergraph" where
  "relabel h =
     set_states (h\<lparr>self_IL := relabel_by_field (relabel_by_field (self_IL h) Eid) Nid\<rparr>)"

text \<open>
  \<^verbatim>\<open>remove_singletons\<close>. \<^verbatim>\<open>D[e.eid]\<close> reads a plain dict; \<^verbatim>\<open>self.IL.remove(e)\<close> deletes the
  first occurrence and raises ValueError when there is none.
\<close>

fun list_remove :: "'a \<Rightarrow> 'a list \<Rightarrow> py_error + 'a list" where
  "list_remove x xs = (if x \<in> set xs then Inr (remove1 x xs) else Inl ValueError)"

definition remove_singletons :: "hypergraph \<Rightarrow> py_error + hypergraph" where
  "remove_singletons h =
     (case edge_dimensions h of (D, h1) \<Rightarrow>
      (case traverse (\<lambda>e. case getitem D (eid e) of Inl err \<Rightarrow> Inl err
                           | Inr c \<Rightarrow> Inr (e, c = 1)) (self_IL h1) of
         Inl err \<Rightarrow> Inl err
       | Inr marked \<Rightarrow>
           (let to_remove = map fst (filter snd marked)
            in case foldM list_remove to_remove (self_IL h1) of
                 Inl err \<Rightarrow> Inl err
               | Inr il \<Rightarrow> Inr (set_states (relabel (h1\<lparr>self_IL := il\<rparr>))))))"



subsection \<open>Stub matching\<close>

text \<open>
  \<^verbatim>\<open>random.shuffle\<close>: for \<^verbatim>\<open>i\<close> from the last index down to 1, the element at \<^verbatim>\<open>i\<close> changes
  place with the one at a random index not above \<^verbatim>\<open>i\<close>. \<open>rnd i\<close> is the raw output of the
  random source at step \<^verbatim>\<open>i\<close>.
\<close>

fun shuffle_from :: "nat \<Rightarrow> (nat \<Rightarrow> nat) \<Rightarrow> 'a list \<Rightarrow> 'a list" where
  "shuffle_from 0 rnd x = x"
| "shuffle_from (Suc i) rnd x =
     (let j = rnd (Suc i) mod (Suc i + 1)
      in shuffle_from i rnd (x[Suc i := x ! j, j := x ! Suc i]))"

definition shuffle :: "(nat \<Rightarrow> nat) \<Rightarrow> 'a list \<Rightarrow> 'a list" where
  "shuffle rnd x = shuffle_from (length x - 1) rnd x"

text \<open>
  The body of the innermost loop: \<^verbatim>\<open>to_add = stubs[r].pop(0)\<close>, then the new incidence is
  appended. The state is \<^verbatim>\<open>(stubs, IL_)\<close>.
\<close>

type_synonym stubs = "(int \<times> (int \<times> int) list) list"

definition add_stub :: "int \<Rightarrow> int \<Rightarrow> stubs \<times> incidence list \<Rightarrow> py_error + stubs \<times> incidence list" where
  "add_stub e r st =
     (case st of (stubs, il) \<Rightarrow>
      (case getitem stubs r of Inl err \<Rightarrow> Inl err
       | Inr queue \<Rightarrow>
           (case queue of [] \<Rightarrow> Inl IndexError
            | to_add # rest \<Rightarrow>
                Inr (AList.update r rest stubs,
                     il @ [NodeEdgeIncidence (fst to_add) (snd to_add) e None]))))"

definition fill_edge ::
    "(int \<times> (int \<times> nat) list) list \<Rightarrow> int list \<Rightarrow> int \<Rightarrow> stubs \<times> incidence list
       \<Rightarrow> py_error + stubs \<times> incidence list" where
  "fill_edge dims rs e st =
     foldM (\<lambda>r st. case getitem dims e of Inl err \<Rightarrow> Inl err
                  | Inr dims_e \<Rightarrow> (case getitem dims_e r of Inl err \<Rightarrow> Inl err
                  | Inr c \<Rightarrow> foldM (\<lambda>i. add_stub e r) [0..<c] st)) rs st"

text \<open>
  \<^verbatim>\<open>stub_matching\<close>: the new instance and the store it was called on, whose list
  \<^verbatim>\<open>edge_dimensions\<close> has role-sorted.
\<close>

definition stub_matching :: "(nat \<Rightarrow> nat) \<Rightarrow> hypergraph \<Rightarrow> py_error + (hypergraph \<times> hypergraph)" where
  "stub_matching rnd h =
     (case edge_dimensions_by_role h of Inl err \<Rightarrow> Inl err
      | Inr (dims, h1) \<Rightarrow>
          (let stubs0 = map (\<lambda>e. (nid e, role e)) (self_IL h1);
               stubs1 = py_sort snd False (shuffle rnd stubs0);
               stubs = dict_of (groupby stubs1 snd)
           in case foldM (fill_edge dims (self_roles h1)) (map fst dims) (stubs, []) of
                Inl err \<Rightarrow> Inl err
              | Inr (stubs', IL_new) \<Rightarrow> Inr (set_states (h1\<lparr>self_IL := IL_new\<rparr>), h1)))"

subsection \<open>The step budget of the stub-labeled sampler\<close>

text \<open>
  \<^verbatim>\<open>N = np.array([len(l) for l in by_role])\<close> and
  \<^verbatim>\<open>steps = ((N * np.log(N)) / (N * np.log(N).sum()) * n_steps).astype(int)\<close>, over the reals.
  The method call binds tighter than the product: the divisor is \<^verbatim>\<open>N\<close> times the sum of the
  logarithms. \<^verbatim>\<open>astype(int)\<close> truncates towards zero. Where the sum of the logarithms is zero
  the source divides zero by zero; that outcome is \<open>None\<close>. The source computes in float64:
  its budget is the one given here wherever the exact quotient is farther from an integer
  than the rounding error of the float64 computation.
\<close>

definition astype_int :: "real \<Rightarrow> int" where
  "astype_int x = (if 0 \<le> x then \<lfloor>x\<rfloor> else \<lceil>x\<rceil>)"

definition step_budget :: "nat list \<Rightarrow> int \<Rightarrow> int list option" where
  "step_budget N n_steps =
     (let log_sum = (\<Sum>Nj\<leftarrow>N. ln (real Nj))
      in if log_sum = 0 then None
         else Some (map (\<lambda>Ni. astype_int ((real Ni * ln (real Ni)) / (real Ni * log_sum)
                                            * real_of_int n_steps)) N))"

definition stub_labeled_steps :: "int \<Rightarrow> hypergraph \<Rightarrow> int list option" where
  "stub_labeled_steps n_steps h =
     (let h1 = sort_IL [Role] False h;
          by_role = map snd (groupby (self_IL h1) role)
      in step_budget (map length by_role) n_steps)"

text \<open>
  The budget as the specification words it: the integer part of \<open>n_steps\<close> times
  \<open>N\<^sub>i log N\<^sub>i\<close> over the sum of all \<open>N\<^sub>j log N\<^sub>j\<close>.
\<close>

definition spec_step_budget :: "nat list \<Rightarrow> int \<Rightarrow> int list" where
  "spec_step_budget N n_steps =
     map (\<lambda>Ni. astype_int (real_of_int n_steps * (real Ni * ln (real Ni))
                             / (\<Sum>Nj\<leftarrow>N. real Nj * ln (real Nj)))) N"


subsection \<open>Quantities the sampler is specified to preserve\<close>

text \<open>
  A stub is a (node, role) pair; a slot is what an incidence keeps in a swap: its role, its
  edge and its metadata. \<open>nodes_holding r\<close> is the multiset of node ids holding role \<open>r\<close>.
\<close>

definition stub :: "incidence \<Rightarrow> int \<times> int" where
  "stub e = (nid e, role e)"

definition slot :: "incidence \<Rightarrow> int \<times> int \<times> metadata option" where
  "slot e = (role e, eid e, meta e)"

definition nodes_holding :: "int \<Rightarrow> incidence list \<Rightarrow> int multiset" where
  "nodes_holding r il = mset (map nid (filter (\<lambda>e. role e = r) il))"

text \<open>
  An edge is the group of all incidences with one edge id; it is degenerate when a node id
  occurs in it twice. \<open>degenerate_ids\<close> is the set of the degenerate edges of a list of
  incidences, \<open>degenerate_edges\<close> the number of degenerate groups of the sampler's dict.
\<close>

definition degenerate_ids :: "incidence list \<Rightarrow> int set" where
  "degenerate_ids il = {k \<in> eid ` set il. check_degenerate (filter (\<lambda>e. eid e = k) il)}"

definition degenerate_edges :: "edges \<Rightarrow> nat" where
  "degenerate_edges edges = length (filter (\<lambda>kE. check_degenerate (snd kE)) edges)"

text \<open>
  The shape of the sampler's dict: one group per edge id, each holding incidences of that
  edge id only.
\<close>

definition edges_grouped :: "edges \<Rightarrow> bool" where
  "edges_grouped edges =
     (distinct (map fst edges) \<and> list_all (\<lambda>kE. list_all (\<lambda>x. eid x = fst kE) (snd kE)) edges)"

subsection \<open>The weighted projection as the specification words it\<close>

text \<open>
  \<open>edge_of e il\<close> is the edge \<open>e\<close>: the incidences of the list with edge id \<open>e\<close>, in
  their order. The roles are an ordered set and \<open>R\<close> is indexed in their order:
  \<open>role_index rs r\<close> is the position of the role \<open>r\<close> in the list \<open>rs\<close>, and \<open>R_entry h a b\<close>
  is the entry of \<open>R\<close> in the row of the role of \<open>a\<close> and the column of the role of \<open>b\<close>
  (0 when no \<open>R\<close> is assigned). \<open>position_pairs E u v\<close> are the ordered pairs of distinct
  positions of the edge \<open>E\<close> whose incidences have the node ids \<open>u\<close> and \<open>v\<close>.
\<close>

definition edge_of :: "int \<Rightarrow> incidence list \<Rightarrow> incidence list" where
  "edge_of e il = filter (\<lambda>x. eid x = e) il"

definition role_index :: "int list \<Rightarrow> int \<Rightarrow> nat" where
  "role_index rs r = length (takeWhile (\<lambda>x. x \<noteq> r) rs)"

definition R_entry :: "hypergraph \<Rightarrow> incidence \<Rightarrow> incidence \<Rightarrow> real" where
  "R_entry h a b =
     (case self_R h of
        None \<Rightarrow> 0
      | Some R \<Rightarrow> R ! role_index (self_roles h) (role a) ! role_index (self_roles h) (role b))"

definition position_pairs :: "incidence list \<Rightarrow> int \<Rightarrow> int \<Rightarrow> (nat \<times> nat) list" where
  "position_pairs E u v =
     filter (\<lambda>(p, q). p \<noteq> q \<and> nid (E ! p) = u \<and> nid (E ! q) = v)
            (List.product [0..<length E] [0..<length E])"

text \<open>
  \<open>projection_sum h u v\<close> adds, over all edges and over all ordered pairs of distinct
  incidences \<open>(a, b)\<close> of the edge with the node ids \<open>u\<close> and \<open>v\<close>, the entry of \<open>R\<close> for
  their roles; \<open>co_membership_count\<close> counts these pairs. \<open>projection_terms h u v\<close> is the
  list of the same entries, edges by descending edge id and pairs by position: a sum in
  floating point depends on the order of its terms.
\<close>

definition projection_sum :: "hypergraph \<Rightarrow> int \<Rightarrow> int \<Rightarrow> real" where
  "projection_sum h u v =
     (\<Sum>e\<leftarrow>remdups (map eid (self_IL h)).
        \<Sum>(p, q)\<leftarrow>position_pairs (edge_of e (self_IL h)) u v.
          R_entry h (edge_of e (self_IL h) ! p) (edge_of e (self_IL h) ! q))"

definition co_membership_count :: "hypergraph \<Rightarrow> int \<Rightarrow> int \<Rightarrow> nat" where
  "co_membership_count h u v =
     (\<Sum>e\<leftarrow>remdups (map eid (self_IL h)). length (position_pairs (edge_of e (self_IL h)) u v))"

definition projection_terms :: "hypergraph \<Rightarrow> int \<Rightarrow> int \<Rightarrow> real list" where
  "projection_terms h u v =
     concat (map (\<lambda>e. map (\<lambda>(p, q). R_entry h (edge_of e (self_IL h) ! p)
                                            (edge_of e (self_IL h) ! q))
                          (position_pairs (edge_of e (self_IL h)) u v))
                 (rev (sort (remdups (map eid (self_IL h))))))"

text \<open>
  Floating-point addition is exact along a list of terms when adding each term to the sum of
  the terms before it gives their sum.
\<close>

definition exact_on :: "float_add \<Rightarrow> real list \<Rightarrow> bool" where
  "exact_on fadd ts =
     list_all (\<lambda>i. fadd (sum_list (take i ts)) (ts ! i) = sum_list (take i ts) + ts ! i)
              [0..<length ts]"

text \<open>
  What \<^verbatim>\<open>assign_role_interaction_matrix\<close> asserts of a matrix: as many rows, and in each row
  as many entries, as there are roles.
\<close>

definition R_shape_ok :: "hypergraph \<Rightarrow> bool" where
  "R_shape_ok h =
     (case self_R h of None \<Rightarrow> True
      | Some r \<Rightarrow> length r = length (self_roles h)
                  \<and> list_all (\<lambda>row. length row = length (self_roles h)) r)"

subsection \<open>Example hypergraphs\<close>

text \<open>Two edges, each with one node in role 0 and one in role 1.\<close>

definition ex_swap :: hypergraph where
  "ex_swap = AnnotatedHypergraph
     [NodeEdgeIncidence 1 0 0 None, NodeEdgeIncidence 2 1 0 None,
      NodeEdgeIncidence 3 0 1 None, NodeEdgeIncidence 4 1 1 None] [0, 1]"

text \<open>The same after the role-0 nodes of the two edges have changed places.\<close>

definition ex_swapped :: hypergraph where
  "ex_swapped = ex_swap\<lparr>self_IL :=
     [NodeEdgeIncidence 3 0 0 None, NodeEdgeIncidence 2 1 0 None,
      NodeEdgeIncidence 1 0 1 None, NodeEdgeIncidence 4 1 1 None]\<rparr>"

text \<open>Two incidences in role 0 and four in role 1.\<close>

definition ex_two_four :: hypergraph where
  "ex_two_four = AnnotatedHypergraph
     [NodeEdgeIncidence 1 0 0 None, NodeEdgeIncidence 2 1 0 None, NodeEdgeIncidence 3 1 0 None,
      NodeEdgeIncidence 2 0 1 None, NodeEdgeIncidence 1 1 1 None, NodeEdgeIncidence 4 1 1 None]
     [0, 1]"

text \<open>Edge 0 holds a single node; edge 1 holds two.\<close>

definition ex_singleton :: hypergraph where
  "ex_singleton = AnnotatedHypergraph
     [NodeEdgeIncidence 1 0 0 None, NodeEdgeIncidence 2 0 1 None, NodeEdgeIncidence 3 1 1 None]
     [0, 1]"


text \<open>What \<^verbatim>\<open>remove_singletons\<close> leaves of \<open>ex_singleton\<close>.\<close>

definition ex_singleton_removed :: hypergraph where
  "ex_singleton_removed =
     \<lparr>self_IL = [NodeEdgeIncidence 1 0 1 None, NodeEdgeIncidence 2 1 1 None],
      self_roles = [0, 1], self_node_list = [1, 2], self_edge_list = [1],
      self_n = 2, self_m = 1, self_R = None, self_sort_key = None\<rparr>"

text \<open>A single edge that holds node 1 twice.\<close>

definition ex_stuck :: hypergraph where
  "ex_stuck = AnnotatedHypergraph
     [NodeEdgeIncidence 1 0 0 None, NodeEdgeIncidence 1 0 0 None] [0]"

text \<open>A source of raw random numbers for \<^verbatim>\<open>shuffle\<close>.\<close>

definition ex_rnd :: "nat \<Rightarrow> nat" where
  "ex_rnd i = i * 7 + 3"

text \<open>Role 1 is declared and held by no incidence.\<close>

definition ex_unused_role :: hypergraph where
  "ex_unused_role = AnnotatedHypergraph
     [NodeEdgeIncidence 1 0 0 None, NodeEdgeIncidence 2 0 0 None, NodeEdgeIncidence 3 0 1 None]
     [0, 1]"

text \<open>
  Two edges over the nodes 1 and 2 with the roles crossed: each edge holds one node in role 0
  and the other in role 1.
\<close>

definition ex_crossed :: hypergraph where
  "ex_crossed = AnnotatedHypergraph
     [NodeEdgeIncidence 1 0 0 None, NodeEdgeIncidence 2 1 0 None,
      NodeEdgeIncidence 2 0 1 None, NodeEdgeIncidence 1 1 1 None] [0, 1]"

text \<open>A role-interaction matrix for two roles that is not symmetric.\<close>

definition ex_asym_R :: "real list list" where
  "ex_asym_R = [[1, 2], [3, 4]]"

text \<open>\<open>ex_two_four\<close> with this matrix assigned.\<close>

definition ex_two_four_R :: hypergraph where
  "ex_two_four_R = ex_two_four\<lparr>self_R := Some ex_asym_R\<rparr>"

section \<open>Properties\<close>

subsection \<open>Grouping and dicts\<close>

lemma distinct_remdups_adj_sorted: "sorted xs \<Longrightarrow> distinct (remdups_adj xs)"
  by (induction xs rule: remdups_adj.induct) (auto simp: remdups_adj_set)

lemma groupby_concat: "concat (map snd (groupby xs key)) = xs"
  by (induction xs key rule: groupby.induct) simp_all

lemma groupby_keys: "map fst (groupby xs key) = remdups_adj (map key xs)"
proof (induction xs key rule: groupby.induct)
  case (1 key)
  show ?case by simp
next
  case (2 x xs key)
  have "dropWhile (\<lambda>y. y = key x) (map key xs) = map key (dropWhile (\<lambda>y. key y = key x) xs)"
    by (simp add: dropWhile_map comp_def)
  with 2 show ?case by (simp add: remdups_adj_Cons')
qed

lemma groupby_runs:
  "distinct (remdups_adj (map key xs)) \<Longrightarrow>
   groupby xs key = map (\<lambda>k. (k, filter (\<lambda>y. key y = k) xs)) (remdups_adj (map key xs))"
proof (induction xs key rule: groupby.induct)
  case (1 key)
  show ?case by simp
next
  case (2 x xs key)
  let ?T = "takeWhile (\<lambda>y. key y = key x) xs"
  let ?D = "dropWhile (\<lambda>y. key y = key x) xs"
  have dm: "dropWhile (\<lambda>y. y = key x) (map key xs) = map key ?D"
    by (simp add: dropWhile_map comp_def)
  have ra: "remdups_adj (map key (x # xs)) = key x # remdups_adj (map key ?D)"
    by (simp add: remdups_adj_Cons' dm)
  from "2.prems" ra have notin: "key x \<notin> set (map key ?D)" and dist: "distinct (remdups_adj (map key ?D))"
    by simp_all
  have xs: "xs = ?T @ ?D" by simp
  have fT: "filter (\<lambda>y. key y = key x) ?T = ?T"
    by (rule filter_True) (auto dest: set_takeWhileD)
  have fD: "filter (\<lambda>y. key y = key x) ?D = []"
  proof -
    have "key y \<noteq> key x" if "y \<in> set ?D" for y
      using notin that by (metis image_eqI set_map)
    then show ?thesis unfolding filter_empty_conv by blast
  qed
  have fx: "filter (\<lambda>y. key y = key x) xs = ?T"
    by (subst xs, simp only: filter_append fT fD) simp
  have other: "filter (\<lambda>y. key y = k) (x # xs) = filter (\<lambda>y. key y = k) ?D"
    if "k \<in> set (remdups_adj (map key ?D))" for k
  proof -
    from that notin have ne: "k \<noteq> key x" by (metis remdups_adj_set)
    have "filter (\<lambda>y. key y = k) ?T = []"
      using ne by (auto simp: filter_empty_conv dest: set_takeWhileD)
    then have "filter (\<lambda>y. key y = k) xs = filter (\<lambda>y. key y = k) ?D"
      by (subst xs, simp only: filter_append) simp
    with ne show ?thesis by auto
  qed
  have "groupby (x # xs) key = (key x, x # ?T) # groupby ?D key"
    by simp
  also have "groupby ?D key =
      map (\<lambda>k. (k, filter (\<lambda>y. key y = k) ?D)) (remdups_adj (map key ?D))"
    by (rule "2.IH"[OF dist])
  also have "\<dots> = map (\<lambda>k. (k, filter (\<lambda>y. key y = k) (x # xs))) (remdups_adj (map key ?D))"
    by (rule map_cong[OF refl]) (simp only: other)
  also have "x # ?T = filter (\<lambda>y. key y = key x) (x # xs)"
    using fx by simp
  finally show ?case
    unfolding ra by (simp only: list.map)
qed

subsection \<open>One accepted step of the degeneracy-avoiding sampler\<close>


lemma update_fresh: "k \<notin> fst ` set d \<Longrightarrow> AList.update k v d = d @ [(k, v)]"
  by (induction d) auto

lemma dict_of_aux:
  "distinct (map fst (d @ kvs)) \<Longrightarrow> foldl (\<lambda>d (k, v). AList.update k v d) d kvs = d @ kvs"
proof (induction kvs arbitrary: d)
  case Nil
  show ?case by simp
next
  case (Cons kv kvs)
  obtain k v where kv: "kv = (k, v)" by (cases kv)
  from Cons.prems kv have fresh: "k \<notin> fst ` set d" by auto
  from Cons.prems have "distinct (map fst ((d @ [kv]) @ kvs))" by simp
  from Cons.IH[OF this] show ?case
    by (simp add: kv update_fresh[OF fresh])
qed

lemma dict_of_distinct: "distinct (map fst kvs) \<Longrightarrow> dict_of kvs = kvs"
  using dict_of_aux[of "[]" kvs] by (simp add: dict_of_def)

lemma check_degenerate_iff: "check_degenerate E \<longleftrightarrow> \<not> distinct (map nid E)"
  unfolding check_degenerate_def by (metis card_distinct distinct_card length_map)

lemma proposal_AcceptedE:
  assumes acc: "proposal rl m edges d = Accepted edges'"
  obtains i j E0 E1 k l where
    "i < m" "j < m" "map_of edges (int i) = Some E0" "map_of edges (int j) = Some E1"
    "k < length E0" "l < length E1" "rl \<longrightarrow> role (E0 ! k) = role (E1 ! l)"
    "\<not> check_degenerate (fst (swap_proposal E0 E1 k l))"
    "\<not> check_degenerate (snd (swap_proposal E0 E1 k l))"
    "edges' = AList.update (int j) (snd (swap_proposal E0 E1 k l))
               (AList.update (int i) (fst (swap_proposal E0 E1 k l)) edges)"
proof -
  obtain ri rj rk rl' where d: "d = (ri, rj, rk, rl')" by (cases d)
  from acc have m: "m \<noteq> 0"
    by (auto simp: proposal_def randint_def d split: if_splits)
  define i j where "i = ri mod m" and "j = rj mod m"
  from acc m obtain E0 where E0: "map_of edges (int i) = Some E0"
    by (cases "map_of edges (int i)") (auto simp: proposal_def randint_def getitem_def d i_def split: if_splits)
  from acc m E0 obtain E1 where E1: "map_of edges (int j) = Some E1"
    by (cases "map_of edges (int j)")
       (auto simp: proposal_def randint_def getitem_def d i_def j_def split: if_splits)
  from acc m E0 E1 have n0: "length E0 \<noteq> 0"
    by (auto simp: proposal_def randint_def getitem_def d i_def j_def split: if_splits)
  from acc m E0 E1 n0 have n1: "length E1 \<noteq> 0"
    by (auto simp: proposal_def randint_def getitem_def d i_def j_def split: if_splits)
  define k l where "k = rk mod length E0" and "l = rl' mod length E1"
  note facts = proposal_def randint_def getitem_def d i_def j_def k_def l_def
  from acc m E0 E1 n0 n1 have r: "rl \<longrightarrow> role (E0 ! k) = role (E1 ! l)"
    by (auto simp: facts split: if_splits)
  from acc m E0 E1 n0 n1
  have c0: "\<not> check_degenerate (fst (swap_proposal E0 E1 k l))"
    and c1: "\<not> check_degenerate (snd (swap_proposal E0 E1 k l))"
    and e: "edges' = AList.update (int j) (snd (swap_proposal E0 E1 k l))
               (AList.update (int i) (fst (swap_proposal E0 E1 k l)) edges)"
    by (auto simp: facts split: if_splits prod.splits)
  have "i < m" "j < m" "k < length E0" "l < length E1"
    using m n0 n1 by (simp_all add: i_def j_def k_def l_def)
  with E0 E1 r c0 c1 e show thesis
    using that[of i j E0 E1 k l] by blast
qed

lemma map_of_update_mset:
  "map_of d k = Some v \<Longrightarrow>
   mset (incidences_of (AList.update k v' d)) + mset v = mset (incidences_of d) + mset v'"
  by (induction d) (auto simp: incidences_of_def)

lemma image_mset_list_update:
  "k < length E \<Longrightarrow>
   mset (map f (E[k := v])) + {#f (E ! k)#} = mset (map f E) + {#f v#}"
  by (simp add: map_update mset_update)

lemma NodeEdgeIncidence_same [simp]:
  "NodeEdgeIncidence (nid x) (role x) (eid x) (meta x) = x"
  by (simp add: NodeEdgeIncidence_def)

lemma NodeEdgeIncidence_sel [simp]:
  "nid (NodeEdgeIncidence v r e md) = v" "role (NodeEdgeIncidence v r e md) = r"
  "eid (NodeEdgeIncidence v r e md) = e" "meta (NodeEdgeIncidence v r e md) = md"
  by (simp_all add: NodeEdgeIncidence_def)

lemma self_swap_degenerate:
  assumes "k < length E" "l < length E" "k \<noteq> l"
  shows "check_degenerate (E[k := NodeEdgeIncidence (nid (E ! l)) r e md])"
proof -
  let ?E = "E[k := NodeEdgeIncidence (nid (E ! l)) r e md]"
  have "map nid ?E ! k = map nid ?E ! l" using assms by simp
  moreover have "k < length (map nid ?E)" "l < length (map nid ?E)" using assms by simp_all
  ultimately have "\<not> distinct (map nid ?E)"
    using assms(3) by (metis nth_eq_iff_index_eq)
  then show ?thesis by (simp add: check_degenerate_iff)
qed


lemma mset_list_update_add:
  "k < length E \<Longrightarrow> mset (E[k := v]) + {#E ! k#} = mset E + {#v#}"
  by (simp add: mset_update)

lemma accepted_shape:
  assumes acc: "proposal rl m edges d = Accepted edges'"
  shows "\<exists>a b. (rl \<longrightarrow> role a = role b) \<and>
           mset (incidences_of edges') + {#a, b#} =
           mset (incidences_of edges)
             + {#NodeEdgeIncidence (nid b) (role a) (eid a) (meta a),
                 NodeEdgeIncidence (nid a) (role b) (eid b) (meta b)#}"
proof -
  from acc obtain i j E0 E1 k l where
    E0: "map_of edges (int i) = Some E0" and E1: "map_of edges (int j) = Some E1" and
    k: "k < length E0" and l: "l < length E1" and
    r: "rl \<longrightarrow> role (E0 ! k) = role (E1 ! l)" and
    c0: "\<not> check_degenerate (fst (swap_proposal E0 E1 k l))" and
    e: "edges' = AList.update (int j) (snd (swap_proposal E0 E1 k l))
               (AList.update (int i) (fst (swap_proposal E0 E1 k l)) edges)"
    by (rule proposal_AcceptedE)
  let ?a = "E0 ! k" and ?b = "E1 ! l"
  let ?a' = "NodeEdgeIncidence (nid ?b) (role ?a) (eid ?a) (meta ?a)"
  let ?b' = "NodeEdgeIncidence (nid ?a) (role ?b) (eid ?b) (meta ?b)"
  let ?E0p = "E0[k := ?a']" and ?E1p = "E1[l := ?b']"
  let ?edges1 = "AList.update (int i) ?E0p edges"
  have e': "edges' = AList.update (int j) ?E1p ?edges1"
    using e by (simp add: swap_proposal_def)
  have c0': "\<not> check_degenerate ?E0p"
    using c0 by (simp add: swap_proposal_def)
  have s1: "mset (incidences_of ?edges1) + mset E0 = mset (incidences_of edges) + mset ?E0p"
    by (rule map_of_update_mset[OF E0])
  have u0: "mset ?E0p + {#?a#} = mset E0 + {#?a'#}" by (rule mset_list_update_add[OF k])
  have u1: "mset ?E1p + {#?b#} = mset E1 + {#?b'#}" by (rule mset_list_update_add[OF l])
  have main: "mset (incidences_of edges') + {#?a, ?b#} = mset (incidences_of edges) + {#?a', ?b'#}"
  proof (cases "i = j")
    case True
    with E0 E1 have same: "E1 = E0" by simp
    have "k = l"
    proof (rule ccontr)
      assume "k \<noteq> l"
      with k l same have "check_degenerate ?E0p"
        by (simp add: self_swap_degenerate)
      with c0' show False by simp
    qed
    with same have ab: "?b = ?a" "?b' = ?a" "?a' = ?a" "?E1p = E0" "?E0p = E0" by simp_all
    have "map_of ?edges1 (int j) = Some ?E0p" using True by (simp add: update_conv')
    from map_of_update_mset[OF this, of ?E1p]
    have "mset (incidences_of edges') + mset ?E0p = mset (incidences_of ?edges1) + mset ?E1p"
      by (simp add: e')
    with s1 ab show ?thesis by simp
  next
    case False
    then have "map_of ?edges1 (int j) = Some E1" using E1 by (simp add: update_conv')
    from map_of_update_mset[OF this, of ?E1p]
    have s2: "mset (incidences_of edges') + mset E1 = mset (incidences_of ?edges1) + mset ?E1p"
      by (simp add: e')
    have "(mset (incidences_of edges') + {#?a, ?b#}) + (mset E0 + mset E1)
        = (mset (incidences_of edges') + mset E1) + mset E0 + {#?a#} + {#?b#}"
      by (simp add: ac_simps)
    also have "\<dots> = mset (incidences_of edges) + (mset ?E0p + {#?a#}) + (mset ?E1p + {#?b#})"
      unfolding s2 using s1 by (simp add: ac_simps)
    also have "\<dots> = (mset (incidences_of edges) + {#?a', ?b'#}) + (mset E0 + mset E1)"
      unfolding u0 u1 by (simp add: ac_simps)
    finally show ?thesis by simp
  qed
  with r show ?thesis by blast
qed


lemma mcmc_loop_invariant:
  assumes step: "\<And>e d e'. P e \<Longrightarrow> proposal rl m e d = Accepted e' \<Longrightarrow> P e'"
    and "P edges"
    and "mcmc_loop rl m n ds (edges, N, k) = Returned (edges', N', k') \<or>
         mcmc_loop rl m n ds (edges, N, k) = Spinning (edges', N', k')"
  shows "P edges'"
  using assms(2,3)
proof (induction ds arbitrary: edges N k)
  case Nil
  then show ?case by (auto split: if_splits)
next
  case (Cons d ds)
  show ?case
  proof (cases "int N < n")
    case False
    with Cons.prems show ?thesis by auto
  next
    case True
    show ?thesis
    proof (cases "proposal rl m edges d")
      case (Accepted e1)
      with True Cons.prems(2)
      have "mcmc_loop rl m n ds (e1, N + 1, k) = Returned (edges', N', k') \<or>
            mcmc_loop rl m n ds (e1, N + 1, k) = Spinning (edges', N', k')" by simp
      moreover have "P e1" using step[OF Cons.prems(1) Accepted] .
      ultimately show ?thesis using Cons.IH by blast
    next
      case Rejected
      with True Cons.prems(2)
      have "mcmc_loop rl m n ds (edges, N, k + 1) = Returned (edges', N', k') \<or>
            mcmc_loop rl m n ds (edges, N, k + 1) = Spinning (edges', N', k')" by simp
      then show ?thesis using Cons.IH Cons.prems(1) by blast
    next
      case (Raised err)
      with True Cons.prems(2) show ?thesis by simp
    qed
  qed
qed

lemma accepted_stubs:
  assumes "proposal True m edges d = Accepted edges'"
  shows "mset (map stub (incidences_of edges')) = mset (map stub (incidences_of edges))"
proof -
  from accepted_shape[OF assms] obtain a b where r: "role a = role b" and
    eq: "mset (incidences_of edges') + {#a, b#} =
         mset (incidences_of edges)
           + {#NodeEdgeIncidence (nid b) (role a) (eid a) (meta a),
               NodeEdgeIncidence (nid a) (role b) (eid b) (meta b)#}" by blast
  from arg_cong[OF eq, of "image_mset stub"] r
  show ?thesis by (simp add: stub_def)
qed

lemma accepted_slots:
  assumes "proposal rl m edges d = Accepted edges'"
  shows "mset (map slot (incidences_of edges')) = mset (map slot (incidences_of edges))"
proof -
  from accepted_shape[OF assms] obtain a b where
    eq: "mset (incidences_of edges') + {#a, b#} =
         mset (incidences_of edges)
           + {#NodeEdgeIncidence (nid b) (role a) (eid a) (meta a),
               NodeEdgeIncidence (nid a) (role b) (eid b) (meta b)#}" by blast
  from arg_cong[OF eq, of "image_mset slot"]
  show ?thesis by (simp add: slot_def)
qed

lemma nodes_holding_stub:
  "nodes_holding r il = image_mset fst (filter_mset (\<lambda>p. snd p = r) (mset (map stub il)))"
  by (induction il) (simp_all add: nodes_holding_def stub_def)

lemma sorted_eid_role: "sorted (map (\<lambda>x. map (getattr x) [Eid, Role]) il) \<Longrightarrow> sorted (map eid il)"
  by (induction il) (auto simp: less_eq_list_code)

lemma sort_IL_eid_role:
  assumes "self_sort_key h \<noteq> Some ''eid_role''"
  shows "mset (self_IL (sort_IL [Eid, Role] False h)) = mset (self_IL h)"
    and "sorted (map eid (self_IL (sort_IL [Eid, Role] False h)))"
  using assms by (simp_all add: sort_IL_def py_sort_def sorted_eid_role)

lemma group_edges_sorted:
  assumes "sorted (map eid (self_IL h))"
  shows "incidences_of (group_edges h) = self_IL h"
proof -
  have "distinct (map fst (groupby (self_IL h) eid))"
    using assms by (simp add: groupby_keys distinct_remdups_adj_sorted)
  then show ?thesis
    by (simp add: group_edges_def dict_of_distinct incidences_of_def groupby_concat)
qed


subsection \<open>What set_states, sort and the maintenance operations leave of the state\<close>


lemma set_states_resets [simp]:
  "self_R (set_states h) = None" "self_sort_key (set_states h) = None"
  "self_roles (set_states h) = self_roles h" "self_IL (set_states h) = self_IL h"
  by (simp_all add: set_states_def Let_def)

lemma sort_IL_frame [simp]:
  "self_R (sort_IL sort_by reverse h) = self_R h"
  "self_sort_key (sort_IL sort_by reverse h) = self_sort_key h"
  "self_roles (sort_IL sort_by reverse h) = self_roles h"
  "self_m (sort_IL sort_by reverse h) = self_m h"
  "self_n (sort_IL sort_by reverse h) = self_n h"
  "self_edge_list (sort_IL sort_by reverse h) = self_edge_list h"
  "self_node_list (sort_IL sort_by reverse h) = self_node_list h"
  by (simp_all add: sort_IL_def Let_def)

lemma relabel_resets [simp]:
  "self_R (relabel h) = None" "self_sort_key (relabel h) = None"
  "self_roles (relabel h) = self_roles h"
  by (simp_all add: relabel_def)




lemma default_R_Some: "self_R h = Some r \<Longrightarrow> default_R h = h"
  by (simp add: default_R_def)








subsection \<open>Role-preserving swaps keep the nodes of every role\<close>

lemma ex_swap_run: "degeneracy_avoiding_MCMC 1 True [(0, 1, 0, 0)] ex_swap = Returned ex_swapped"
  by code_simp

text \<open>
  C1. Whenever the degeneracy-avoiding sampler, run with \<^verbatim>\<open>role_labels=True\<close> on a store whose
  tracked sort key is not already \<^verbatim>\<open>"eid_role"\<close>, stops after any number of accepted steps
  (it returns, or the supply of draws ends), then for every role the multiset of node ids
  holding that role is the one before the run; the multiset of (node, role) pairs and the
  multiset of (role, edge, metadata) slots are unchanged, so only the assignment of pairs to
  slots is permuted; and the number of incidences is the same.
\<close>

theorem C1:
  assumes run: "degeneracy_avoiding_MCMC n_steps True draws h = Returned h' \<or>
                degeneracy_avoiding_MCMC n_steps True draws h = Spinning h'"
    and key: "self_sort_key h \<noteq> Some ''eid_role''"
  shows "(\<forall>r. nodes_holding r (self_IL h') = nodes_holding r (self_IL h)) \<and>
         mset (map stub (self_IL h')) = mset (map stub (self_IL h)) \<and>
         mset (map slot (self_IL h')) = mset (map slot (self_IL h)) \<and>
         length (self_IL h') = length (self_IL h)"
proof -
  let ?h1 = "sort_IL [Eid, Role] False h"
  let ?P = "\<lambda>e. mset (map stub (incidences_of e)) = mset (map stub (self_IL h)) \<and>
                 mset (map slot (incidences_of e)) = mset (map slot (self_IL h))"
  from run obtain edges' N k where
    loop: "mcmc_loop True (self_m ?h1) n_steps draws (group_edges ?h1, 0, 0) = Returned (edges', N, k) \<or>
           mcmc_loop True (self_m ?h1) n_steps draws (group_edges ?h1, 0, 0) = Spinning (edges', N, k)"
    and h': "self_IL h' = incidences_of edges'"
    by (auto simp: degeneracy_avoiding_MCMC_def Let_def split: outcome.splits)
  have "incidences_of (group_edges ?h1) = self_IL ?h1"
    using sort_IL_eid_role(2)[OF key] by (rule group_edges_sorted)
  then have init: "?P (group_edges ?h1)"
    using sort_IL_eid_role(1)[OF key] by (metis mset_map)
  have "?P edges'"
    by (rule mcmc_loop_invariant[where P = ?P, OF _ init loop])
       (metis accepted_stubs accepted_slots)
  then have st: "mset (map stub (self_IL h')) = mset (map stub (self_IL h))"
    and sl: "mset (map slot (self_IL h')) = mset (map slot (self_IL h))"
    by (simp_all add: h' incidences_of_def)
  from st have "\<forall>r. nodes_holding r (self_IL h') = nodes_holding r (self_IL h)"
    by (simp add: nodes_holding_stub)
  moreover from st have "length (self_IL h') = length (self_IL h)"
    by (metis length_map size_mset)
  ultimately show ?thesis using st sl by blast
qed

theorem C1_witness:
  "degeneracy_avoiding_MCMC 1 True [(0, 1, 0, 0)] ex_swap = Returned ex_swapped \<and>
   self_sort_key ex_swap \<noteq> Some ''eid_role'' \<and>
   nodes_holding 0 (self_IL ex_swapped) = {#1, 3#} \<and>
   nodes_holding 0 (self_IL ex_swap) = {#1, 3#} \<and>
   length (self_IL ex_swapped) = 4"
proof -
  have run: "degeneracy_avoiding_MCMC 1 True [(0, 1, 0, 0)] ex_swap = Returned ex_swapped"
    by (rule ex_swap_run)
  have key: "self_sort_key ex_swap \<noteq> Some ''eid_role''"
    by code_simp
  have il: "self_IL ex_swap = [NodeEdgeIncidence 1 0 0 None, NodeEdgeIncidence 2 1 0 None,
      NodeEdgeIncidence 3 0 1 None, NodeEdgeIncidence 4 1 1 None]"
    by code_simp
  from C1[OF disjI1[OF run] key] il run key show ?thesis
    by (simp add: nodes_holding_def)
qed

subsection \<open>The step budget of the stub-labeled sampler\<close>

lemma ln4: "ln (4::real) = 2 * ln 2"
proof -
  have "(4::real) = 2 ^ 2" by simp
  then have "ln (4::real) = ln (2 ^ 2)" by (simp only:)
  also have "\<dots> = 2 * ln 2" by (simp only: ln_realpow)
  finally show ?thesis .
qed

lemma ln2_pos: "0 < ln (2::real)" by simp

lemma step_budget_2_4: "step_budget [2, 4] 10 = Some [3, 6]"
proof -
  have s: "(\<Sum>Nj\<leftarrow>[2, 4::nat]. ln (real Nj)) = 3 * ln 2" by (simp add: ln4)
  have nz: "3 * ln (2::real) \<noteq> 0" using ln2_pos by simp
  have a: "(real 2 * ln (real 2)) / (real 2 * (3 * ln 2)) * real_of_int 10 = 10 / 3"
    using ln2_pos by (simp add: field_simps)
  have b: "(real 4 * ln (real 4)) / (real 4 * (3 * ln 2)) * real_of_int 10 = 20 / 3"
    using ln2_pos by (simp add: field_simps ln4)
  have fa: "astype_int (10 / 3) = 3" unfolding astype_int_def by simp
  have fb: "astype_int (20 / 3) = 6" unfolding astype_int_def by simp
  have "step_budget [2, 4] 10 =
          Some (map (\<lambda>Ni. astype_int ((real Ni * ln (real Ni)) / (real Ni * (3 * ln 2))
                                            * real_of_int 10)) [2, 4])"
    unfolding step_budget_def Let_def s using nz by (simp only: if_False)
  also have "\<dots> = Some [astype_int (10 / 3), astype_int (20 / 3)]"
    by (simp only: list.map a b)
  finally show ?thesis by (simp only: fa fb)
qed

lemma spec_step_budget_2_4: "spec_step_budget [2, 4] 10 = [2, 8]"
proof -
  have s: "(\<Sum>Nj\<leftarrow>[2, 4::nat]. real Nj * ln (real Nj)) = 10 * ln 2" by (simp add: ln4)
  have a: "real_of_int 10 * (real 2 * ln (real 2)) / (10 * ln 2) = 2"
    using ln2_pos by (simp add: field_simps)
  have b: "real_of_int 10 * (real 4 * ln (real 4)) / (10 * ln 2) = 8"
    using ln2_pos by (simp add: field_simps ln4)
  have fa: "astype_int 2 = 2" "astype_int 8 = 8" unfolding astype_int_def by simp_all
  show ?thesis
    unfolding spec_step_budget_def s by (simp only: list.map a b fa)
qed

lemma ex_two_four_sizes:
  "map length (map snd (groupby (self_IL (sort_IL [Role] False ex_two_four)) role)) = [2, 4]"
  by code_simp

text \<open>
  C4. On a hypergraph whose role partitions have sizes 2 and 4, with \<^verbatim>\<open>n_steps = 10\<close>, the
  sampler computes the budget 3 and 6: the shares \<open>log 2 / (log 2 + log 4)\<close> and
  \<open>log 4 / (log 2 + log 4)\<close> of 10. The budget proportional to \<open>N log N\<close> is 2 and 8.
\<close>

theorem C4_budget_follows_logarithms:
  "stub_labeled_steps 10 ex_two_four = Some [3, 6] \<and> spec_step_budget [2, 4] 10 = [2, 8]"
  unfolding stub_labeled_steps_def Let_def ex_two_four_sizes
  by (simp only: step_budget_2_4 spec_step_budget_2_4)


subsection \<open>The tracked sort key\<close>

text \<open>
  C5. \<^verbatim>\<open>sort\<close> leaves the tracked sort key as it found it: after \<^verbatim>\<open>sort(by="eid")\<close> on a
  freshly constructed store the key is still \<^verbatim>\<open>None\<close>, not \<^verbatim>\<open>"eid"\<close>.
\<close>

theorem C5_sort_key_not_recorded:
  "self_sort_key (sort_IL sort_by reverse h) = self_sort_key h \<and>
   self_sort_key (sort_IL [Eid] False ex_swap) = None"
proof -
  have "self_sort_key (sort_IL sort_by reverse h) = self_sort_key h" for sort_by reverse h
    by (simp add: sort_IL_def Let_def)
  moreover have "self_sort_key ex_swap = None"
    by (simp add: ex_swap_def AnnotatedHypergraph_def sort_IL_def Let_def set_states_def)
  ultimately show ?thesis by simp
qed


subsection \<open>Removing a singleton edge\<close>

text \<open>
  C8. On the hypergraph with the singleton edge 0 and the two-node edge 1,
  \<^verbatim>\<open>remove_singletons\<close> drops the incidence of edge 0 and brings \<^verbatim>\<open>m\<close> from 2 to 1, and the
  remaining edge keeps the id 1: the labels written by \<^verbatim>\<open>relabel\<close> start at 1, not at 0.
\<close>

theorem C8_labels_start_at_one:
  "self_m ex_singleton = 2 \<and> self_edge_list ex_singleton = [0, 1] \<and>
   remove_singletons ex_singleton =
     Inr \<lparr>self_IL = [NodeEdgeIncidence 1 0 1 None, NodeEdgeIncidence 2 1 1 None],
          self_roles = [0, 1], self_node_list = [1, 2], self_edge_list = [1],
          self_n = 2, self_m = 1, self_R = None, self_sort_key = None\<rparr>"
  by code_simp


subsection \<open>set_states discards the role-interaction matrix\<close>








subsection \<open>The loop counts accepted proposals\<close>

lemma mcmc_loop_returned:
  assumes "mcmc_loop rl m n ds (edges, N, k) = Returned (edges', N', k')"
  shows "int N' = max (int N) n \<and> N + k \<le> N' + k' \<and> (N' + k') - (N + k) \<le> length ds \<and>
         mcmc_loop rl m n (take ((N' + k') - (N + k)) ds) (edges, N, k) = Returned (edges', N', k')"
  using assms
proof (induction ds arbitrary: edges N k)
  case Nil
  then show ?case by (auto split: if_splits)
next
  case (Cons d ds)
  show ?case
  proof (cases "int N < n")
    case False
    with Cons.prems show ?thesis by auto
  next
    case True
    show ?thesis
    proof (cases "proposal rl m edges d")
      case (Accepted e1)
      with True Cons.prems
      have run: "mcmc_loop rl m n ds (e1, N + 1, k) = Returned (edges', N', k')" by simp
      from Cons.IH[OF run] have
        ih: "int N' = max (int (N + 1)) n" "N + 1 + k \<le> N' + k'"
            "(N' + k') - (N + 1 + k) \<le> length ds"
            "mcmc_loop rl m n (take ((N' + k') - (N + 1 + k)) ds) (e1, N + 1, k)
               = Returned (edges', N', k')"
        by simp_all
      have t: "(N' + k') - (N + k) = Suc ((N' + k') - (N + 1 + k))" using ih(2) by simp
      show ?thesis
        using ih True Accepted unfolding t by simp
    next
      case Rejected
      with True Cons.prems
      have run: "mcmc_loop rl m n ds (edges, N, k + 1) = Returned (edges', N', k')" by simp
      from Cons.IH[OF run] have
        ih: "int N' = max (int N) n" "N + (k + 1) \<le> N' + k'"
            "(N' + k') - (N + (k + 1)) \<le> length ds"
            "mcmc_loop rl m n (take ((N' + k') - (N + (k + 1))) ds) (edges, N, k + 1)
               = Returned (edges', N', k')"
        by simp_all
      have t: "(N' + k') - (N + k) = Suc ((N' + k') - (N + (k + 1)))" using ih(2) by simp
      show ?thesis
        using ih True Rejected unfolding t by simp
    next
      case (Raised err)
      with True Cons.prems show ?thesis by simp
    qed
  qed
qed

lemma mcmc_loop_all_rejected:
  assumes "\<And>d. proposal rl m edges d = Rejected" and "int N < n"
  shows "mcmc_loop rl m n ds (edges, N, k) = Spinning (edges, N, k + length ds)"
  using assms(2)
proof (induction ds arbitrary: k)
  case Nil
  then show ?case by simp
next
  case (Cons d ds)
  from Cons.IH[OF Cons.prems, of "k + 1"] Cons.prems assms(1)[of d]
  show ?case by simp
qed

lemma ex_stuck_sorted: "sort_IL [Eid, Role] False ex_stuck = ex_stuck"
  by code_simp

lemma ex_stuck_edges:
  "group_edges ex_stuck = [(0, [NodeEdgeIncidence 1 0 0 None, NodeEdgeIncidence 1 0 0 None])]"
  by code_simp

lemma ex_stuck_m: "self_m ex_stuck = 1"
  by code_simp

lemma ex_stuck_IL: "self_IL ex_stuck = [NodeEdgeIncidence 1 0 0 None, NodeEdgeIncidence 1 0 0 None]"
  by code_simp

lemma ex_stuck_swap:
  assumes "k < 2" "l < 2"
  shows "swap_proposal [NodeEdgeIncidence 1 0 0 None, NodeEdgeIncidence 1 0 0 None]
                       [NodeEdgeIncidence 1 0 0 None, NodeEdgeIncidence 1 0 0 None] k l
         = ([NodeEdgeIncidence 1 0 0 None, NodeEdgeIncidence 1 0 0 None],
            [NodeEdgeIncidence 1 0 0 None, NodeEdgeIncidence 1 0 0 None])"
proof -
  from assms have "(k = 0 \<or> k = 1) \<and> (l = 0 \<or> l = 1)" by auto
  then show ?thesis
    by (auto simp: swap_proposal_def NodeEdgeIncidence_def)
qed

lemma ex_stuck_rejects:
  "proposal True 1 [(0, [NodeEdgeIncidence 1 0 0 None, NodeEdgeIncidence 1 0 0 None])] d = Rejected"
proof -
  obtain ri rj rk rl where d: "d = (ri, rj, rk, rl)" by (cases d)
  have deg: "check_degenerate [NodeEdgeIncidence 1 0 0 None, NodeEdgeIncidence 1 0 0 None]"
    by (simp add: check_degenerate_def)
  have sw: "swap_proposal [NodeEdgeIncidence 1 0 0 None, NodeEdgeIncidence 1 0 0 None]
                       [NodeEdgeIncidence 1 0 0 None, NodeEdgeIncidence 1 0 0 None]
                       (rk mod Suc (Suc 0)) (rl mod Suc (Suc 0))
         = ([NodeEdgeIncidence 1 0 0 None, NodeEdgeIncidence 1 0 0 None],
            [NodeEdgeIncidence 1 0 0 None, NodeEdgeIncidence 1 0 0 None])"
  proof (rule ex_stuck_swap)
    show "rk mod Suc (Suc 0) < 2" by (rule less_le_trans[OF mod_less_divisor]) simp_all
    show "rl mod Suc (Suc 0) < 2" by (rule less_le_trans[OF mod_less_divisor]) simp_all
  qed
  show ?thesis
    using deg sw by (simp add: d proposal_def randint_def getitem_def)
qed


lemma self_draw_accepted:
  assumes m: "0 < m" and ij: "ri mod m = rj mod m"
    and E: "map_of edges (int (ri mod m)) = Some E" and ne: "E \<noteq> []"
    and kl: "rk mod length E = rl mod length E" and nd: "\<not> check_degenerate E"
  shows "proposal role_labels m edges (ri, rj, rk, rl) = Accepted edges"
proof -
  have sw: "swap_proposal E E (rl mod length E) (rl mod length E) = (E, E)"
    by (simp add: swap_proposal_def)
  have up: "AList.update (int (rj mod m)) E (AList.update (int (rj mod m)) E edges) = edges"
    using E ij by (simp add: update_triv)
  show ?thesis
    using m E ne nd ij kl sw up
    by (simp add: proposal_def randint_def getitem_def)
qed

lemma all_rejected_degenerate:
  assumes rej: "\<And>d. proposal rl m edges d = Rejected" and i: "i < m"
  shows "\<exists>E. map_of edges (int i) = Some E \<and> check_degenerate E"
proof -
  have r: "proposal rl m edges (i, i, 0, 0) = Rejected" by (rule rej)
  from i have im: "i mod m = i" "0 < m" by simp_all
  show ?thesis
  proof (cases "map_of edges (int i)")
    case None
    with r i show ?thesis by (simp add: proposal_def randint_def getitem_def)
  next
    case (Some E)
    have ne: "E \<noteq> []"
      using r i Some by (auto simp: proposal_def randint_def getitem_def)
    have "check_degenerate E"
    proof (rule ccontr)
      assume "\<not> check_degenerate E"
      with self_draw_accepted[of m i i edges E 0 0 rl] im Some ne
      have "proposal rl m edges (i, i, 0, 0) = Accepted edges" by simp
      with r show False by simp
    qed
    with Some show ?thesis by simp
  qed
qed

lemma mcmc_loop_self_draws:
  assumes acc: "proposal rl m edges d = Accepted edges"
  shows "mcmc_loop rl m n (replicate (nat n - N) d) (edges, N, k)
           = Returned (edges, max N (nat n), k)"
proof (induction "nat n - N" arbitrary: N)
  case 0
  then have "\<not> int N < n" by linarith
  moreover from 0 have "max N (nat n) = N" by simp
  ultimately show ?case using 0[symmetric] by simp
next
  case (Suc j)
  from Suc(2) have lt: "int N < n" by linarith
  from Suc(2) have j: "j = nat n - (N + 1)" by simp
  from Suc(2) have mx: "max N (nat n) = max (N + 1) (nat n)" by simp
  have "mcmc_loop rl m n (replicate (Suc j) d) (edges, N, k)
          = mcmc_loop rl m n (replicate j d) (edges, N + 1, k)"
    using lt acc by simp
  also have "\<dots> = Returned (edges, max (N + 1) (nat n), k)"
    unfolding j by (rule Suc(1)[OF j])
  finally show ?case unfolding Suc(2)[symmetric] mx .
qed

lemma ex_crossed_sorted: "sort_IL [Eid, Role] False ex_crossed = ex_crossed"
  by code_simp

lemma ex_crossed_edges:
  "group_edges ex_crossed
     = [(0, [NodeEdgeIncidence 1 0 0 None, NodeEdgeIncidence 2 1 0 None]),
        (1, [NodeEdgeIncidence 2 0 1 None, NodeEdgeIncidence 1 1 1 None])]"
  by code_simp

lemma ex_crossed_m: "self_m ex_crossed = 2"
  by code_simp

lemma ex_crossed_small:
  "list_all (\<lambda>d. proposal True 2 (group_edges ex_crossed) d
                   = (case d of (i, j, k, l) \<Rightarrow>
                        if i = j \<and> k = l then Accepted (group_edges ex_crossed) else Rejected))
     (List.product [0, 1] (List.product [0, 1] (List.product [0, 1] [0, 1])))"
  by code_simp

lemma proposal_mod:
  assumes "\<forall>i<m. \<exists>E. map_of edges (int i) = Some E \<and> length E = n"
  shows "proposal rl m edges (ri, rj, rk, rl')
           = proposal rl m edges (ri mod m, rj mod m, rk mod n, rl' mod n)"
proof (cases "m = 0")
  case True
  then show ?thesis by (simp add: proposal_def randint_def)
next
  case False
  then have "ri mod m < m" "rj mod m < m" by simp_all
  with assms obtain E0 E1 where
    E: "map_of edges (int (ri mod m)) = Some E0" "length E0 = n"
       "map_of edges (int (rj mod m)) = Some E1" "length E1 = n"
    by blast
  with False show ?thesis
    by (simp add: proposal_def randint_def getitem_def split: prod.splits)
qed

lemma ex_crossed_proposal:
  "proposal True 2 (group_edges ex_crossed) (ri, rj, rk, rl)
     = (if ri mod 2 = rj mod 2 \<and> rk mod 2 = rl mod 2
        then Accepted (group_edges ex_crossed) else Rejected)"
proof -
  have len: "\<forall>i<2. \<exists>E. map_of (group_edges ex_crossed) (int i) = Some E \<and> length E = 2"
  proof (intro allI impI)
    fix i :: nat assume "i < 2"
    then have "i = 0 \<or> i = 1" by auto
    then show "\<exists>E. map_of (group_edges ex_crossed) (int i) = Some E \<and> length E = 2"
      by (auto simp: ex_crossed_edges)
  qed
  have b: "ri mod 2 \<in> set [0, 1]" "rj mod 2 \<in> set [0, 1]" "rk mod 2 \<in> set [0, 1]"
    "rl mod 2 \<in> set [0, 1]"
    by auto
  then have "(ri mod 2, rj mod 2, rk mod 2, rl mod 2)
      \<in> set (List.product [0, 1] (List.product [0, 1] (List.product [0, 1] [0, 1])))"
    unfolding set_product by blast
  with ex_crossed_small
  have "proposal True 2 (group_edges ex_crossed) (ri mod 2, rj mod 2, rk mod 2, rl mod 2)
          = (if ri mod 2 = rj mod 2 \<and> rk mod 2 = rl mod 2
             then Accepted (group_edges ex_crossed) else Rejected)"
    unfolding list_all_iff by fastforce
  then show ?thesis by (simp only: proposal_mod[OF len, of True ri rj rk rl])
qed

lemma ex_crossed_run:
  "degeneracy_avoiding_MCMC 2 True [(0, 0, 0, 0), (1, 1, 1, 1)] ex_crossed = Returned ex_crossed"
  by code_simp

text \<open>
  C3, as stated, fails in its consequence: a draw of the same incidence twice is an accepted
  proposal. On the hypergraph with the edges \<open>{1: role 0, 2: role 1}\<close> and
  \<open>{2: role 0, 1: role 1}\<close> every proposal between two different incidences is rejected,
  for role mismatch or for the degeneracy it would induce, and yet the sampler returns after
  two accepted proposals, the hypergraph unchanged.
\<close>

theorem C3_counterexample:
  "(\<forall>ri rj rk rl. proposal True 2 (group_edges ex_crossed) (ri, rj, rk, rl)
       = (if ri mod 2 = rj mod 2 \<and> rk mod 2 = rl mod 2
          then Accepted (group_edges ex_crossed) else Rejected)) \<and>
   self_m ex_crossed = 2 \<and>
   list_all (\<lambda>E. length (snd E) = 2 \<and> \<not> check_degenerate (snd E)) (group_edges ex_crossed) \<and>
   degeneracy_avoiding_MCMC 2 True [(0, 0, 0, 0), (1, 1, 1, 1)] ex_crossed = Returned ex_crossed"
proof -
  have "list_all (\<lambda>E. length (snd E) = 2 \<and> \<not> check_degenerate (snd E)) (group_edges ex_crossed)"
    by code_simp
  with ex_crossed_proposal ex_crossed_m ex_crossed_run show ?thesis by blast
qed

text \<open>
  C3, amended. The loop of the degeneracy-avoiding sampler leaves only when the count of
  accepted proposals has reached \<^verbatim>\<open>n_steps\<close>: a run that returns has accepted exactly
  \<^verbatim>\<open>n_steps\<close> proposals (none when \<^verbatim>\<open>n_steps\<close> is negative) and has made as many attempts as it
  counts accepted and rejected proposals together, so a rejection costs an attempt and no
  step. A draw of the same incidence twice, on an edge that is not degenerate, is an accepted
  proposal that changes nothing; so wherever one of the edges \<open>0, \<dots>, m - 1\<close> is not
  degenerate the loop can return, with \<^verbatim>\<open>n_steps\<close> such draws, whether or not a swap between
  two different incidences is admissible. From a state in which every proposal is rejected
  the loop never leaves: whatever the supply of draws, it is used up with no step taken; in
  such a state every edge \<open>0, \<dots>, m - 1\<close> is degenerate. There is such an input: on the
  hypergraph whose only edge holds node 1 twice, every supply of draws is exhausted before
  one step is accepted.
\<close>

theorem C3:
  "(\<forall>edges' N' k'.
      mcmc_loop role_labels m n_steps draws (edges, 0, 0) = Returned (edges', N', k') \<longrightarrow>
        int N' = max 0 n_steps \<and> N' + k' \<le> length draws \<and>
        mcmc_loop role_labels m n_steps (take (N' + k') draws) (edges, 0, 0)
          = Returned (edges', N', k')) \<and>
   ((\<forall>d. proposal role_labels m edges d = Rejected) \<and> 0 < n_steps \<longrightarrow>
      mcmc_loop role_labels m n_steps draws (edges, 0, 0) = Spinning (edges, 0, length draws)) \<and>
   (\<forall>ds. degeneracy_avoiding_MCMC 1 True ds ex_stuck = Spinning ex_stuck) \<and>
   (\<forall>ri rj rk rl E.
      0 < m \<and> ri mod m = rj mod m \<and> map_of edges (int (ri mod m)) = Some E \<and> E \<noteq> [] \<and>
      rk mod length E = rl mod length E \<and> \<not> check_degenerate E \<longrightarrow>
        proposal role_labels m edges (ri, rj, rk, rl) = Accepted edges) \<and>
   (\<forall>i E. i < m \<and> map_of edges (int i) = Some E \<and> E \<noteq> [] \<and> \<not> check_degenerate E \<longrightarrow>
      mcmc_loop role_labels m n_steps (replicate (nat n_steps) (i, i, 0, 0)) (edges, 0, 0)
        = Returned (edges, nat n_steps, 0)) \<and>
   ((\<forall>d. proposal role_labels m edges d = Rejected) \<longrightarrow>
      (\<forall>i<m. \<exists>E. map_of edges (int i) = Some E \<and> check_degenerate E))"
proof -
  have a: "int N' = max 0 n_steps \<and> N' + k' \<le> length draws \<and>
        mcmc_loop role_labels m n_steps (take (N' + k') draws) (edges, 0, 0)
          = Returned (edges', N', k')"
    if "mcmc_loop role_labels m n_steps draws (edges, 0, 0) = Returned (edges', N', k')"
    for edges' N' k'
    using mcmc_loop_returned[OF that] by simp
  have b: "mcmc_loop role_labels m n_steps draws (edges, 0, 0) = Spinning (edges, 0, length draws)"
    if "(\<forall>d. proposal role_labels m edges d = Rejected) \<and> 0 < n_steps"
    using mcmc_loop_all_rejected[of role_labels m edges 0 n_steps draws 0] that by simp
  have c: "degeneracy_avoiding_MCMC 1 True ds ex_stuck = Spinning ex_stuck" for ds
  proof -
    have "mcmc_loop True 1 1 ds (group_edges ex_stuck, 0, 0)
            = Spinning (group_edges ex_stuck, 0, 0 + length ds)"
      unfolding ex_stuck_edges by (rule mcmc_loop_all_rejected) (rule ex_stuck_rejects, simp)
    moreover have "ex_stuck\<lparr>self_IL := incidences_of (group_edges ex_stuck)\<rparr> = ex_stuck"
      by (simp add: ex_stuck_edges incidences_of_def ex_stuck_IL[symmetric])
    ultimately show ?thesis
      by (simp add: degeneracy_avoiding_MCMC_def ex_stuck_sorted ex_stuck_m)
  qed
  have d: "proposal role_labels m edges (ri, rj, rk, rl) = Accepted edges"
    if "0 < m \<and> ri mod m = rj mod m \<and> map_of edges (int (ri mod m)) = Some E \<and> E \<noteq> [] \<and>
        rk mod length E = rl mod length E \<and> \<not> check_degenerate E"
    for ri rj rk rl E
    using that self_draw_accepted by blast
  have e: "mcmc_loop role_labels m n_steps (replicate (nat n_steps) (i, i, 0, 0)) (edges, 0, 0)
        = Returned (edges, nat n_steps, 0)"
    if h: "i < m \<and> map_of edges (int i) = Some E \<and> E \<noteq> [] \<and> \<not> check_degenerate E" for i E
  proof -
    from h have "proposal role_labels m edges (i, i, 0, 0) = Accepted edges"
      using self_draw_accepted[of m i i edges E 0 0 role_labels] by simp
    from mcmc_loop_self_draws[OF this, of n_steps 0 0] show ?thesis by simp
  qed
  have f: "\<forall>i<m. \<exists>E. map_of edges (int i) = Some E \<and> check_degenerate E"
    if "\<forall>d. proposal role_labels m edges d = Rejected"
    using that all_rejected_degenerate by blast
  show ?thesis
    by (rule conjI[OF _ conjI[OF _ conjI[OF _ conjI[OF _ conjI]]]])
       (use a b c d e f in blast)+
qed

lemma ex_swap_loop:
  "mcmc_loop True 2 1 [(1, 1, 1, 0), (0, 1, 0, 0), (5, 5, 5, 5)] (group_edges ex_swap, 0, 0)
     = Returned (group_edges ex_swapped, 1, 1)"
  by code_simp

lemma ex_crossed_edge0:
  "map_of (group_edges ex_crossed) 0
     = Some [NodeEdgeIncidence 1 0 0 None, NodeEdgeIncidence 2 1 0 None]"
  "\<not> check_degenerate [NodeEdgeIncidence 1 0 0 None, NodeEdgeIncidence 2 1 0 None]"
  by code_simp+

theorem C3_witness:
  "mcmc_loop True 2 1 [(1, 1, 1, 0), (0, 1, 0, 0), (5, 5, 5, 5)] (group_edges ex_swap, 0, 0)
     = Returned (group_edges ex_swapped, 1, 1) \<and>
   mcmc_loop True 2 1 [(1, 1, 1, 0), (0, 1, 0, 0)] (group_edges ex_swap, 0, 0)
     = Returned (group_edges ex_swapped, 1, 1) \<and>
   mcmc_loop True 1 3 [(0, 0, 0, 1), (7, 7, 7, 7)] (group_edges ex_stuck, 0, 0)
     = Spinning (group_edges ex_stuck, 0, 2) \<and>
   (\<exists>E. map_of (group_edges ex_stuck) 0 = Some E \<and> check_degenerate E) \<and>
   map_of (group_edges ex_crossed) 0
     = Some [NodeEdgeIncidence 1 0 0 None, NodeEdgeIncidence 2 1 0 None] \<and>
   \<not> check_degenerate [NodeEdgeIncidence 1 0 0 None, NodeEdgeIncidence 2 1 0 None] \<and>
   proposal True 2 (group_edges ex_crossed) (2, 0, 3, 1) = Accepted (group_edges ex_crossed) \<and>
   mcmc_loop True 2 2 [(0, 0, 0, 0), (0, 0, 0, 0)] (group_edges ex_crossed, 0, 0)
     = Returned (group_edges ex_crossed, 2, 0)"
proof -
  have rej: "\<forall>d. proposal True 1 (group_edges ex_stuck) d = Rejected"
    unfolding ex_stuck_edges by (rule allI) (rule ex_stuck_rejects)
  from C3[of True 2 1 "[(1, 1, 1, 0), (0, 1, 0, 0), (5, 5, 5, 5)]" "group_edges ex_swap"]
    ex_swap_loop
  have w1: "mcmc_loop True 2 1 (take (1 + 1) [(1, 1, 1, 0), (0, 1, 0, 0), (5, 5, 5, 5)])
          (group_edges ex_swap, 0, 0) = Returned (group_edges ex_swapped, 1, 1)"
    by blast
  note stuck = C3[of True 1 3 "[(0, 0, 0, 1), (7, 7, 7, 7)]" "group_edges ex_stuck"]
  from stuck rej
  have w2: "mcmc_loop True 1 3 [(0, 0, 0, 1), (7, 7, 7, 7)] (group_edges ex_stuck, 0, 0)
     = Spinning (group_edges ex_stuck, 0, length [(0::nat, 0::nat, 0::nat, 1::nat), (7, 7, 7, 7)])"
    by simp
  from stuck rej
  have "\<forall>i<1. \<exists>E. map_of (group_edges ex_stuck) (int i) = Some E \<and> check_degenerate E"
    by blast
  then have w3: "\<exists>E. map_of (group_edges ex_stuck) 0 = Some E \<and> check_degenerate E"
    by simp
  note crossed = C3[of True 2 2 "[]" "group_edges ex_crossed"]
  from crossed have
    "0 < (2::nat) \<and> (2::nat) mod 2 = 0 mod 2 \<and>
     map_of (group_edges ex_crossed) (int (2 mod 2))
       = Some [NodeEdgeIncidence 1 0 0 None, NodeEdgeIncidence 2 1 0 None] \<and>
     [NodeEdgeIncidence 1 0 0 None, NodeEdgeIncidence 2 1 0 None] \<noteq> [] \<and>
     (3::nat) mod length [NodeEdgeIncidence 1 0 0 None, NodeEdgeIncidence 2 1 0 None]
       = 1 mod length [NodeEdgeIncidence 1 0 0 None, NodeEdgeIncidence 2 1 0 None] \<and>
     \<not> check_degenerate [NodeEdgeIncidence 1 0 0 None, NodeEdgeIncidence 2 1 0 None] \<longrightarrow>
     proposal True 2 (group_edges ex_crossed) (2, 0, 3, 1) = Accepted (group_edges ex_crossed)"
    by blast
  moreover note ex_crossed_edge0
  moreover have "(3::nat) mod Suc (Suc 0) = Suc 0" by presburger
  ultimately
  have w4: "proposal True 2 (group_edges ex_crossed) (2, 0, 3, 1)
              = Accepted (group_edges ex_crossed)"
    by simp
  from crossed have
    "(0::nat) < 2 \<and> map_of (group_edges ex_crossed) (int 0)
       = Some [NodeEdgeIncidence 1 0 0 None, NodeEdgeIncidence 2 1 0 None] \<and>
     [NodeEdgeIncidence 1 0 0 None, NodeEdgeIncidence 2 1 0 None] \<noteq> [] \<and>
     \<not> check_degenerate [NodeEdgeIncidence 1 0 0 None, NodeEdgeIncidence 2 1 0 None] \<longrightarrow>
     mcmc_loop True 2 2 (replicate (nat 2) (0, 0, 0, 0)) (group_edges ex_crossed, 0, 0)
       = Returned (group_edges ex_crossed, nat 2, 0)"
    by blast
  with ex_crossed_edge0
  have "mcmc_loop True 2 2 (replicate (nat 2) (0, 0, 0, 0)) (group_edges ex_crossed, 0, 0)
       = Returned (group_edges ex_crossed, nat 2, 0)"
    by simp
  then have w5: "mcmc_loop True 2 2 [(0, 0, 0, 0), (0, 0, 0, 0)] (group_edges ex_crossed, 0, 0)
     = Returned (group_edges ex_crossed, 2, 0)"
    by (simp add: numeral_2_eq_2)
  from w1 have w1': "mcmc_loop True 2 1 [(1, 1, 1, 0), (0, 1, 0, 0)] (group_edges ex_swap, 0, 0)
     = Returned (group_edges ex_swapped, 1, 1)"
    by simp
  from w2 have w2': "mcmc_loop True 1 3 [(0, 0, 0, 1), (7, 7, 7, 7)] (group_edges ex_stuck, 0, 0)
     = Spinning (group_edges ex_stuck, 0, 2)"
    by simp
  show ?thesis
    by (rule conjI[OF ex_swap_loop conjI[OF w1' conjI[OF w2' conjI[OF w3
          conjI[OF ex_crossed_edge0(1) conjI[OF ex_crossed_edge0(2) conjI[OF w4 w5]]]]]]])
qed


subsection \<open>Edge ids as keys of the grouped edges\<close>


lemma mcmc_loop_never_raises:
  assumes step: "\<And>e d e'. P e \<Longrightarrow> proposal rl m e d = Accepted e' \<Longrightarrow> P e'"
    and safe: "\<And>e d. P e \<Longrightarrow> proposal rl m e d \<noteq> Raised err"
    and "P edges"
  shows "mcmc_loop rl m n ds (edges, N, k) \<noteq> Raises err"
  using assms(3)
proof (induction ds arbitrary: edges N k)
  case Nil
  then show ?case by simp
next
  case (Cons d ds)
  show ?case
  proof (cases "proposal rl m edges d")
    case (Accepted e1)
    with Cons.IH[OF step[OF Cons.prems Accepted]] show ?thesis by simp
  next
    case Rejected
    with Cons.IH[OF Cons.prems] show ?thesis by simp
  next
    case (Raised err')
    with safe[OF Cons.prems, of d] show ?thesis by auto
  qed
qed

lemma proposal_KeyError_iff:
  "proposal rl m edges (ri, rj, rk, rl') = Raised KeyError \<longleftrightarrow>
     m \<noteq> 0 \<and> (map_of edges (int (ri mod m)) = None \<or> map_of edges (int (rj mod m)) = None)"
  by (auto simp: proposal_def randint_def getitem_def
           split: sum.splits option.splits if_splits prod.splits)

lemma keys_cover_step:
  assumes "\<forall>i<m. map_of e (int i) \<noteq> None" "proposal rl m e d = Accepted e'"
  shows "\<forall>i<m. map_of e' (int i) \<noteq> None"
proof -
  from assms(2) obtain i j A B where
    "e' = AList.update (int j) B (AList.update (int i) A e)"
    by (rule proposal_AcceptedE)
  with assms(1) show ?thesis
    by (auto simp: update_conv')
qed

lemma keys_cover_safe:
  assumes "\<forall>i<m. map_of e (int i) \<noteq> None"
  shows "proposal rl m e d \<noteq> Raised KeyError"
proof -
  obtain ri rj rk rl' where d: "d = (ri, rj, rk, rl')" by (cases d)
  show ?thesis
    unfolding d proposal_KeyError_iff using assms by auto
qed

lemma map_of_group_edges:
  assumes "sorted (map eid (self_IL h))"
  shows "map_of (group_edges h) k = None \<longleftrightarrow> k \<notin> eid ` set (self_IL h)"
proof -
  have d: "distinct (map fst (groupby (self_IL h) eid))"
    using assms by (simp add: groupby_keys distinct_remdups_adj_sorted)
  have "fst ` set (group_edges h) = set (map fst (groupby (self_IL h) eid))"
    by (simp add: group_edges_def dict_of_distinct[OF d])
  also have "\<dots> = eid ` set (self_IL h)"
    by (simp add: groupby_keys remdups_adj_set)
  finally show ?thesis by (simp add: map_of_eq_None_iff)
qed

lemma length_np_unique: "length (np_unique xs) = card (set xs)"
  by (simp add: np_unique_def length_remdups_card_conv)

lemma dense_or_gap:
  fixes S :: "int set"
  assumes "finite S" "card S = m"
  shows "S = {0..<int m} \<or> (\<exists>i<m. int i \<notin> S)"
proof (cases "\<exists>i<m. int i \<notin> S")
  case True
  then show ?thesis by simp
next
  case False
  have "{0..<int m} \<subseteq> S"
  proof
    fix x assume "x \<in> {0..<int m}"
    then have "nat x < m" "int (nat x) = x" by auto
    with False show "x \<in> S" by metis
  qed
  moreover have "card {0..<int m} = card S" using assms(2) by simp
  ultimately have "{0..<int m} = S" using assms(1) by (simp add: card_subset_eq)
  then show ?thesis by simp
qed

lemma sampler_dense_safe:
  assumes m: "self_m h = length (np_unique (map eid (self_IL h)))"
    and key: "self_sort_key h \<noteq> Some ''eid_role''"
    and dense: "set (map eid (self_IL h)) = {0..<int (self_m h)}"
  shows "degeneracy_avoiding_MCMC n_steps rl ds h \<noteq> Raises KeyError"
proof -
  let ?h1 = "sort_IL [Eid, Role] False h"
  let ?P = "\<lambda>e. \<forall>i<self_m h. map_of e (int i) \<noteq> None"
  have ids: "eid ` set (self_IL ?h1) = eid ` set (self_IL h)"
    using sort_IL_eid_role(1)[OF key] by (metis mset_eq_setD)
  have "map_of (group_edges ?h1) (int i) \<noteq> None" if "i < self_m h" for i
  proof -
    from that dense have "int i \<in> eid ` set (self_IL h)" by simp
    then show ?thesis
      unfolding map_of_group_edges[OF sort_IL_eid_role(2)[OF key]] ids by simp
  qed
  then have init: "?P (group_edges ?h1)" by simp
  have "mcmc_loop rl (self_m h) n_steps ds (group_edges ?h1, 0, 0) \<noteq> Raises KeyError"
    by (rule mcmc_loop_never_raises[where P = ?P, OF _ _ init])
       (erule (1) keys_cover_step, erule keys_cover_safe)
  then show ?thesis
    by (auto simp: degeneracy_avoiding_MCMC_def Let_def split: outcome.splits)
qed

lemma sampler_gap_raises:
  assumes m: "self_m h = length (np_unique (map eid (self_IL h)))"
    and key: "self_sort_key h \<noteq> Some ''eid_role''"
    and gap: "set (map eid (self_IL h)) \<noteq> {0..<int (self_m h)}"
  shows "\<exists>i<self_m h. degeneracy_avoiding_MCMC 1 rl [(i, i, 0, 0)] h = Raises KeyError"
proof -
  let ?h1 = "sort_IL [Eid, Role] False h"
  have ids: "eid ` set (self_IL ?h1) = eid ` set (self_IL h)"
    using sort_IL_eid_role(1)[OF key] by (metis mset_eq_setD)
  have "card (set (map eid (self_IL h))) = self_m h"
    by (simp add: m length_np_unique)
  with gap dense_or_gap[of "set (map eid (self_IL h))" "self_m h"]
  obtain i where i: "i < self_m h" "int i \<notin> eid ` set (self_IL h)" by auto
  then have none: "map_of (group_edges ?h1) (int i) = None"
    unfolding map_of_group_edges[OF sort_IL_eid_role(2)[OF key]] ids by simp
  have "proposal rl (self_m h) (group_edges ?h1) (i, i, 0, 0) = Raised KeyError"
    unfolding proposal_KeyError_iff using i(1) none by simp
  then have "degeneracy_avoiding_MCMC 1 rl [(i, i, 0, 0)] h = Raises KeyError"
    by (simp add: degeneracy_avoiding_MCMC_def Let_def)
  with i(1) show ?thesis by blast
qed

text \<open>
  C10. On a store whose \<^verbatim>\<open>m\<close> is the number of its distinct edge ids, as \<^verbatim>\<open>set_states\<close>
  leaves it, and whose tracked sort key is not \<^verbatim>\<open>"eid_role"\<close>: no run of the
  degeneracy-avoiding sampler, whatever the draws and the number of steps, raises KeyError
  at the lookups \<^verbatim>\<open>edges[i]\<close>, \<^verbatim>\<open>edges[j]\<close> if and only if the edge ids are exactly the integers
  from 0 to \<^verbatim>\<open>m - 1\<close>. When they are not, there is an index below \<^verbatim>\<open>m\<close> whose draw makes the
  very first lookup raise KeyError.
\<close>

theorem C10:
  assumes "self_m h = length (np_unique (map eid (self_IL h)))"
    and "self_sort_key h \<noteq> Some ''eid_role''"
  shows "((\<forall>n_steps ds. degeneracy_avoiding_MCMC n_steps role_labels ds h \<noteq> Raises KeyError)
            \<longleftrightarrow> set (map eid (self_IL h)) = {0..<int (self_m h)}) \<and>
         (set (map eid (self_IL h)) \<noteq> {0..<int (self_m h)} \<longrightarrow>
            (\<exists>i<self_m h.
               degeneracy_avoiding_MCMC 1 role_labels [(i, i, 0, 0)] h = Raises KeyError))"
  using sampler_dense_safe[OF assms] sampler_gap_raises[OF assms] by blast



lemma ex_removed_m:
  "self_m ex_singleton_removed = length (np_unique (map eid (self_IL ex_singleton_removed)))"
  by code_simp

lemma ex_removed_ids: "set (map eid (self_IL ex_singleton_removed)) = {1}"
  by (simp add: ex_singleton_removed_def NodeEdgeIncidence_def)

lemma ex_swap_m: "self_m ex_swap = length (np_unique (map eid (self_IL ex_swap)))"
  by code_simp

lemma ex_swap_ids: "set (map eid (self_IL ex_swap)) = {0, 1}"
  by code_simp

theorem C10_witness:
  "self_m ex_singleton_removed = length (np_unique (map eid (self_IL ex_singleton_removed))) \<and>
   self_sort_key ex_singleton_removed \<noteq> Some ''eid_role'' \<and>
   set (map eid (self_IL ex_singleton_removed)) \<noteq> {0..<int (self_m ex_singleton_removed)} \<and>
   degeneracy_avoiding_MCMC 1 True [(0, 0, 0, 0)] ex_singleton_removed = Raises KeyError \<and>
   self_m ex_swap = length (np_unique (map eid (self_IL ex_swap))) \<and>
   self_sort_key ex_swap \<noteq> Some ''eid_role'' \<and>
   set (map eid (self_IL ex_swap)) = {0..<int (self_m ex_swap)} \<and>
   (\<forall>n_steps ds. degeneracy_avoiding_MCMC n_steps True ds ex_swap \<noteq> Raises KeyError)"
proof -
  have k1: "self_sort_key ex_singleton_removed \<noteq> Some ''eid_role''"
    by (simp add: ex_singleton_removed_def)
  have m1: "self_m ex_singleton_removed = 1" by (simp add: ex_singleton_removed_def)
  have gap: "set (map eid (self_IL ex_singleton_removed)) \<noteq> {0..<int (self_m ex_singleton_removed)}"
  proof -
    have "(1::int) \<notin> {0..<int 1}" by simp
    then show ?thesis unfolding ex_removed_ids m1 by blast
  qed
  from C10[OF ex_removed_m k1, of True] gap
  have "\<exists>i<self_m ex_singleton_removed.
          degeneracy_avoiding_MCMC 1 True [(i, i, 0, 0)] ex_singleton_removed = Raises KeyError"
    by blast
  then have r1: "degeneracy_avoiding_MCMC 1 True [(0, 0, 0, 0)] ex_singleton_removed = Raises KeyError"
    unfolding m1 by simp
  have k2: "self_sort_key ex_swap \<noteq> Some ''eid_role''" by code_simp
  have m2: "self_m ex_swap = 2" by code_simp
  have "{0..<int 2} = {0, 1}" by auto
  then have dense: "set (map eid (self_IL ex_swap)) = {0..<int (self_m ex_swap)}"
    unfolding ex_swap_ids m2 by simp
  from C10[OF ex_swap_m k2, of True] dense
  have r2: "\<forall>n_steps ds. degeneracy_avoiding_MCMC n_steps True ds ex_swap \<noteq> Raises KeyError"
    by blast
  from ex_removed_m k1 gap r1 ex_swap_m k2 dense r2 show ?thesis by blast
qed

subsection \<open>Accepted steps create no degenerate edge\<close>


lemma check_degenerate_mset:
  "mset xs = mset ys \<Longrightarrow> check_degenerate xs = check_degenerate ys"
  unfolding check_degenerate_iff
  by (metis mset_eq_imp_distinct_iff mset_map)

lemma degenerate_ids_mset:
  assumes "mset xs = mset ys"
  shows "degenerate_ids xs = degenerate_ids ys"
proof -
  have "set xs = set ys" using assms by (rule mset_eq_setD)
  moreover have "check_degenerate (filter (\<lambda>e. eid e = k) xs)
               = check_degenerate (filter (\<lambda>e. eid e = k) ys)" for k
    by (rule check_degenerate_mset) (simp add: assms mset_filter)
  ultimately show ?thesis by (simp add: degenerate_ids_def)
qed

lemma sorted_eid_only: "sorted (map (\<lambda>x. map (getattr x) [Eid]) il) \<Longrightarrow> sorted (map eid il)"
  by (induction il) (auto simp: less_eq_list_code)

lemma sum_list_indicator:
  "(\<Sum>k\<leftarrow>ks. if P k then 1 else 0) = length (filter P ks)"
  by (induction ks) simp_all

lemma count_degeneracies_card:
  assumes "self_sort_key h \<noteq> Some ''eid''"
  shows "fst (count_degeneracies h) = card (degenerate_ids (self_IL h))"
proof -
  let ?il = "self_IL (sort_IL [Eid] False h)"
  have ms: "mset ?il = mset (self_IL h)"
    using assms by (simp add: sort_IL_def py_sort_def)
  have srt: "sorted (map eid ?il)"
    using assms by (simp add: sort_IL_def py_sort_def sorted_eid_only)
  let ?ks = "remdups_adj (map eid ?il)"
  have dk: "distinct ?ks" using srt by (rule distinct_remdups_adj_sorted)
  have g: "groupby ?il eid = map (\<lambda>k. (k, filter (\<lambda>y. eid y = k) ?il)) ?ks"
    by (rule groupby_runs[OF dk])
  have "fst (count_degeneracies h)
      = (\<Sum>k\<leftarrow>?ks. if check_degenerate (filter (\<lambda>y. eid y = k) ?il) then 1 else 0)"
    by (simp add: count_degeneracies_def Let_def g comp_def)
  also have "\<dots> = length (filter (\<lambda>k. check_degenerate (filter (\<lambda>y. eid y = k) ?il)) ?ks)"
    by (rule sum_list_indicator)
  also have "\<dots> = card ({k. check_degenerate (filter (\<lambda>y. eid y = k) ?il)} \<inter> set ?ks)"
    by (rule distinct_length_filter[OF dk])
  also have "{k. check_degenerate (filter (\<lambda>y. eid y = k) ?il)} \<inter> set ?ks = degenerate_ids ?il"
    by (auto simp: degenerate_ids_def remdups_adj_set)
  also have "degenerate_ids ?il = degenerate_ids (self_IL h)"
    by (rule degenerate_ids_mset[OF ms])
  finally show ?thesis .
qed


lemma check_degenerate_Nil [simp]: "\<not> check_degenerate []"
  by (simp add: check_degenerate_def)

lemma degenerate_edges_update:
  assumes "\<not> check_degenerate v" "k \<in> fst ` set d"
  shows "degenerate_edges (AList.update k v d) \<le> degenerate_edges d"
  using assms(2)
proof (induction d)
  case Nil
  then show ?case by simp
next
  case (Cons p d)
  show ?case
  proof (cases "fst p = k")
    case True
    then show ?thesis using assms(1) by (simp add: degenerate_edges_def)
  next
    case False
    with Cons.prems have "k \<in> fst ` set d" by auto
    from Cons.IH[OF this] False show ?thesis by (simp add: degenerate_edges_def)
  qed
qed

lemma update_present_keys:
  "k \<in> fst ` set d \<Longrightarrow> map fst (AList.update k v d) = map fst d"
  by (induction d) auto

lemma accepted_not_degenerate:
  assumes acc: "proposal rl m edges d = Accepted edges'"
  shows "degenerate_edges edges' \<le> degenerate_edges edges"
    and "map_of edges' k = Some E \<Longrightarrow> check_degenerate E \<Longrightarrow> map_of edges k = Some E"
    and "map fst edges' = map fst edges"
    and "edges_grouped edges \<Longrightarrow> edges_grouped edges'"
proof -
  from acc obtain i j E0 E1 p q where
    E0: "map_of edges (int i) = Some E0" and E1: "map_of edges (int j) = Some E1" and
    p: "p < length E0" and q: "q < length E1" and
    c0: "\<not> check_degenerate (fst (swap_proposal E0 E1 p q))" and
    c1: "\<not> check_degenerate (snd (swap_proposal E0 E1 p q))" and
    e: "edges' = AList.update (int j) (snd (swap_proposal E0 E1 p q))
               (AList.update (int i) (fst (swap_proposal E0 E1 p q)) edges)"
    by (rule proposal_AcceptedE)
  let ?A = "fst (swap_proposal E0 E1 p q)" and ?B = "snd (swap_proposal E0 E1 p q)"
  let ?e1 = "AList.update (int i) ?A edges"
  have ki: "int i \<in> fst ` set edges" using E0 by (metis domI dom_map_of_conv_image_fst)
  have kj: "int j \<in> fst ` set edges" using E1 by (metis domI dom_map_of_conv_image_fst)
  have keys1: "map fst ?e1 = map fst edges" using ki by (rule update_present_keys)
  then have kj1: "int j \<in> fst ` set ?e1" using kj by (metis set_map)
  have "degenerate_edges edges' \<le> degenerate_edges ?e1"
    unfolding e by (rule degenerate_edges_update[OF c1 kj1])
  also have "\<dots> \<le> degenerate_edges edges"
    by (rule degenerate_edges_update[OF c0 ki])
  finally show "degenerate_edges edges' \<le> degenerate_edges edges" .
  show "map_of edges k = Some E" if "map_of edges' k = Some E" "check_degenerate E"
    using that c0 c1 unfolding e by (auto simp: update_conv' split: if_splits)
  show keys: "map fst edges' = map fst edges"
  proof -
    have "map fst edges' = map fst ?e1" unfolding e using kj1 by (rule update_present_keys)
    then show ?thesis using keys1 by simp
  qed
  show "edges_grouped edges'" if g: "edges_grouped edges"
  proof -
    have own: "\<forall>x \<in> set G. eid x = key" if "map_of edges key = Some G" for key G
      using g map_of_SomeD[OF that] by (auto simp: edges_grouped_def list_all_iff)
    have A: "\<forall>x \<in> set ?A. eid x = int i"
      using own[OF E0] p by (auto simp: swap_proposal_def Let_def dest!: set_update_subset_insert[THEN subsetD])
    have B: "\<forall>x \<in> set ?B. eid x = int j"
      using own[OF E1] q by (auto simp: swap_proposal_def Let_def dest!: set_update_subset_insert[THEN subsetD])
    have "\<forall>x \<in> set G. eid x = key" if "(key, G) \<in> set edges'" for key G
    proof -
      have "distinct (map fst edges')" using g keys by (simp add: edges_grouped_def)
      with that have "map_of edges' key = Some G" by simp
      then show ?thesis
        unfolding e using A B own by (auto simp: update_conv' split: if_splits)
    qed
    then show ?thesis
      using g keys by (auto simp: edges_grouped_def list_all_iff)
  qed
qed


lemma group_edges_grouped:
  assumes "sorted (map eid (self_IL h))"
  shows "edges_grouped (group_edges h)"
proof -
  let ?ks = "remdups_adj (map eid (self_IL h))"
  have dk: "distinct ?ks" using assms by (rule distinct_remdups_adj_sorted)
  have g: "groupby (self_IL h) eid = map (\<lambda>k. (k, filter (\<lambda>y. eid y = k) (self_IL h))) ?ks"
    by (rule groupby_runs[OF dk])
  have d: "distinct (map fst (groupby (self_IL h) eid))"
    using dk by (simp add: groupby_keys)
  show ?thesis
    unfolding group_edges_def dict_of_distinct[OF d] edges_grouped_def
    using d by (auto simp: g list_all_iff)
qed

lemma filter_incidences_of:
  assumes "edges_grouped e"
  shows "filter (\<lambda>x. eid x = k) (incidences_of e) = (case map_of e k of None \<Rightarrow> [] | Some E \<Rightarrow> E)"
  using assms
proof (induction e)
  case Nil
  show ?case by (simp add: incidences_of_def)
next
  case (Cons p e)
  obtain k' E' where p: "p = (k', E')" by (cases p)
  from Cons.prems p have own: "\<forall>x \<in> set E'. eid x = k'" and fresh: "k' \<notin> fst ` set e"
    and rest: "edges_grouped e"
    by (auto simp: edges_grouped_def list_all_iff)
  have io: "incidences_of ((k', E') # e) = E' @ incidences_of e"
    by (simp add: incidences_of_def)
  show ?case
  proof (cases "k = k'")
    case True
    have "filter (\<lambda>x. eid x = k) E' = E'" using own True by (simp add: filter_id_conv)
    moreover have "map_of e k = None" using fresh True by (simp add: map_of_eq_None_iff)
    ultimately show ?thesis using Cons.IH[OF rest] True by (simp add: io p)
  next
    case False
    have "filter (\<lambda>x. eid x = k) E' = []" using own False by (auto simp: filter_empty_conv)
    then show ?thesis using Cons.IH[OF rest] False by (simp add: io p)
  qed
qed

lemma degenerate_ids_incidences_of:
  assumes "edges_grouped e"
  shows "degenerate_ids (incidences_of e) = {k. \<exists>E. map_of e k = Some E \<and> check_degenerate E}"
proof -
  have 1: "k \<in> eid ` set (incidences_of e)"
    if "map_of e k = Some E" "check_degenerate E" for k E
  proof -
    from that(2) obtain x where "x \<in> set E" by (cases E) auto
    with that(1) have "x \<in> set (filter (\<lambda>x. eid x = k) (incidences_of e))"
      by (simp only: filter_incidences_of[OF assms] option.case)
    then show ?thesis by auto
  qed
  show ?thesis
    unfolding degenerate_ids_def filter_incidences_of[OF assms]
    using 1 by (auto split: option.splits)
qed

lemma finite_degenerate_ids [simp]: "finite (degenerate_ids il)"
  by (simp add: degenerate_ids_def)

lemma sampler_degenerate_ids:
  assumes run: "degeneracy_avoiding_MCMC n_steps rl draws h = Returned h' \<or>
                degeneracy_avoiding_MCMC n_steps rl draws h = Spinning h'"
    and key: "self_sort_key h \<noteq> Some ''eid_role''"
  shows "degenerate_ids (self_IL h') \<subseteq> degenerate_ids (self_IL h)"
proof -
  let ?h1 = "sort_IL [Eid, Role] False h"
  let ?e0 = "group_edges ?h1"
  let ?D = "\<lambda>e. {k. \<exists>E. map_of e k = Some E \<and> check_degenerate E}"
  let ?P = "\<lambda>e. edges_grouped e \<and> ?D e \<subseteq> ?D ?e0"
  from run obtain edges' N k where
    loop: "mcmc_loop rl (self_m ?h1) n_steps draws (?e0, 0, 0) = Returned (edges', N, k) \<or>
           mcmc_loop rl (self_m ?h1) n_steps draws (?e0, 0, 0) = Spinning (edges', N, k)"
    and h': "self_IL h' = incidences_of edges'"
    by (auto simp: degeneracy_avoiding_MCMC_def Let_def split: outcome.splits)
  have srt: "sorted (map eid (self_IL ?h1))" by (rule sort_IL_eid_role(2)[OF key])
  have g0: "edges_grouped ?e0" by (rule group_edges_grouped[OF srt])
  then have init: "?P ?e0" by simp
  have step: "?P e'" if "?P e" "proposal rl (self_m ?h1) e d = Accepted e'" for e d e'
  proof -
    from that(1) have g: "edges_grouped e" and sub: "?D e \<subseteq> ?D ?e0" by simp_all
    have "?D e' \<subseteq> ?D e"
      using accepted_not_degenerate(2)[OF that(2)] by blast
    with sub accepted_not_degenerate(4)[OF that(2) g] show ?thesis by blast
  qed
  have fin: "?P edges'"
    by (rule mcmc_loop_invariant[where P = ?P, OF step init loop])
  then have "degenerate_ids (self_IL h') \<subseteq> ?D ?e0"
    by (simp add: h' degenerate_ids_incidences_of)
  also have "?D ?e0 = degenerate_ids (incidences_of ?e0)"
    by (simp add: degenerate_ids_incidences_of[OF g0])
  also have "\<dots> = degenerate_ids (self_IL ?h1)"
    by (simp add: group_edges_sorted[OF srt])
  also have "\<dots> = degenerate_ids (self_IL h)"
    by (rule degenerate_ids_mset[OF sort_IL_eid_role(1)[OF key]])
  finally show ?thesis .
qed

text \<open>
  C2. An accepted proposal of the degeneracy-avoiding sampler creates no degenerate edge:
  every group of the dict that is degenerate after the step was there, unchanged, before it,
  so the number of degenerate groups does not grow. Over a whole run on a store with no
  tracked sort key, stopped after any number of accepted steps, every edge that is degenerate
  afterwards was degenerate before; \<^verbatim>\<open>count_degeneracies\<close> does not grow, and stays 0 when
  it was 0.
\<close>

theorem C2:
  "(\<forall>edges'. proposal role_labels m edges d = Accepted edges' \<longrightarrow>
      (\<forall>k E. map_of edges' k = Some E \<and> check_degenerate E \<longrightarrow> map_of edges k = Some E) \<and>
      degenerate_edges edges' \<le> degenerate_edges edges) \<and>
   (\<forall>h'. (degeneracy_avoiding_MCMC n_steps role_labels draws h = Returned h' \<or>
          degeneracy_avoiding_MCMC n_steps role_labels draws h = Spinning h') \<and>
         self_sort_key h = None \<longrightarrow>
      degenerate_ids (self_IL h') \<subseteq> degenerate_ids (self_IL h) \<and>
      fst (count_degeneracies h') \<le> fst (count_degeneracies h) \<and>
      (fst (count_degeneracies h) = 0 \<longrightarrow> fst (count_degeneracies h') = 0))"
proof -
  have a: "(\<forall>k E. map_of edges' k = Some E \<and> check_degenerate E \<longrightarrow> map_of edges k = Some E) \<and>
      degenerate_edges edges' \<le> degenerate_edges edges"
    if "proposal role_labels m edges d = Accepted edges'" for edges'
    using accepted_not_degenerate(1,2)[OF that] by blast
  have b: "degenerate_ids (self_IL h') \<subseteq> degenerate_ids (self_IL h) \<and>
      fst (count_degeneracies h') \<le> fst (count_degeneracies h) \<and>
      (fst (count_degeneracies h) = 0 \<longrightarrow> fst (count_degeneracies h') = 0)"
    if run: "degeneracy_avoiding_MCMC n_steps role_labels draws h = Returned h' \<or>
          degeneracy_avoiding_MCMC n_steps role_labels draws h = Spinning h'"
      and key: "self_sort_key h = None" for h'
  proof -
    from key have k1: "self_sort_key h \<noteq> Some ''eid_role''" and k2: "self_sort_key h \<noteq> Some ''eid''"
      by simp_all
    from run have "self_sort_key h' = self_sort_key h"
      by (auto simp: degeneracy_avoiding_MCMC_def Let_def split: outcome.splits)
    with k2 have k3: "self_sort_key h' \<noteq> Some ''eid''" by simp
    have sub: "degenerate_ids (self_IL h') \<subseteq> degenerate_ids (self_IL h)"
      by (rule sampler_degenerate_ids[OF run k1])
    then have "card (degenerate_ids (self_IL h')) \<le> card (degenerate_ids (self_IL h))"
      by (simp add: card_mono)
    then have le: "fst (count_degeneracies h') \<le> fst (count_degeneracies h)"
      by (simp only: count_degeneracies_card[OF k2] count_degeneracies_card[OF k3])
    from sub le show ?thesis by simp
  qed
  from a b show ?thesis by blast
qed



lemma ex_swap_proposal:
  "proposal True 2 (group_edges ex_swap) (0, 1, 0, 0) = Accepted (group_edges ex_swapped)"
  by code_simp

lemma ex_swap_count: "fst (count_degeneracies ex_swap) = 0"
  by code_simp

lemma ex_swap_key: "self_sort_key ex_swap = None"
  by code_simp

theorem C2_witness:
  "proposal True 2 (group_edges ex_swap) (0, 1, 0, 0) = Accepted (group_edges ex_swapped) \<and>
   degenerate_edges (group_edges ex_swapped) \<le> degenerate_edges (group_edges ex_swap) \<and>
   degeneracy_avoiding_MCMC 1 True [(0, 1, 0, 0)] ex_swap = Returned ex_swapped \<and>
   self_sort_key ex_swap = None \<and>
   fst (count_degeneracies ex_swap) = 0 \<and>
   fst (count_degeneracies ex_swapped) = 0"
proof -
  note c2 = C2[of True 2 "group_edges ex_swap" "(0, 1, 0, 0)" 1 "[(0, 1, 0, 0)]" ex_swap]
  from c2 ex_swap_proposal
  have 1: "degenerate_edges (group_edges ex_swapped) \<le> degenerate_edges (group_edges ex_swap)"
    by blast
  from c2 ex_swap_run ex_swap_key ex_swap_count
  have 2: "fst (count_degeneracies ex_swapped) = 0"
    by blast
  from 1 2 ex_swap_proposal ex_swap_run ex_swap_key ex_swap_count show ?thesis
    by blast
qed
subsection \<open>The weighted projection\<close>

lemma weight_at_add_weight:
  "weight_at (add_weight fadd u' v' x d) u v
     = (if u' = u \<and> v' = v then fadd (weight_at d u v) x else weight_at d u v)"
  by (simp add: weight_at_def add_weight_def dd_get_def Let_def update_conv' split: option.splits)

lemma weight_at_foldl:
  "weight_at (foldl (\<lambda>d ab. add_weight fadd (nid (fst ab)) (nid (snd ab)) (W ab) d) d pairs) u v
     = foldl fadd (weight_at d u v)
         (map W (filter (\<lambda>ab. nid (fst ab) = u \<and> nid (snd ab) = v) pairs))"
  by (induction pairs arbitrary: d) (simp_all add: weight_at_add_weight)

lemma weight_at_empty [simp]: "weight_at [] u v = 0"
  by (simp add: weight_at_def dd_get_def)

lemma foldM_weights:
  "foldM (\<lambda>(a, b) d. case g a b of Inl err \<Rightarrow> Inl err
                      | Inr w \<Rightarrow> Inr (add_weight fadd (nid a) (nid b) w d)) pairs d = Inr d'
   \<longleftrightarrow> (\<forall>ab \<in> set pairs. \<exists>w. g (fst ab) (snd ab) = Inr w) \<and>
       d' = foldl (\<lambda>d ab. add_weight fadd (nid (fst ab)) (nid (snd ab))
                    (case g (fst ab) (snd ab) of Inl err \<Rightarrow> 0 | Inr w \<Rightarrow> w) d) d pairs"
proof (induction pairs arbitrary: d)
  case Nil
  show ?case by auto
next
  case (Cons ab pairs)
  obtain a b where ab: "ab = (a, b)" by (cases ab)
  show ?case
  proof (cases "g a b")
    case (Inl err)
    then show ?thesis by (auto simp: ab)
  next
    case (Inr w)
    then show ?thesis using Cons.IH by (simp add: ab)
  qed
qed

lemma permutations2_positions:
  "permutations2 E = map (\<lambda>(p, q). (E ! p, E ! q))
                       (filter (\<lambda>(p, q). p \<noteq> q) (List.product [0..<length E] [0..<length E]))"
proof -
  have "filter (\<lambda>(p, q). p \<noteq> q) (map (Pair i) js) = map (Pair i) (filter (\<lambda>j. j \<noteq> i) js)"
    for i :: nat and js
    by (induction js) auto
  then show ?thesis
    by (simp add: permutations2_def product_concat_map filter_concat map_concat comp_def)
qed

lemma filter_permutations2:
  "filter (\<lambda>ab. nid (fst ab) = u \<and> nid (snd ab) = v) (permutations2 E)
     = map (\<lambda>(p, q). (E ! p, E ! q)) (position_pairs E u v)"
proof -
  have "filter (\<lambda>pq. nid (E ! fst pq) = u \<and> nid (E ! snd pq) = v)
          (filter (\<lambda>(p, q). p \<noteq> q) (List.product [0..<length E] [0..<length E]))
        = position_pairs E u v"
    by (auto simp: position_pairs_def intro: filter_cong)
  then show ?thesis
    by (simp add: permutations2_positions filter_map comp_def case_prod_unfold)
qed

lemma get_IL_groups:
  shows "groupby (get_IL h) eid
           = map (\<lambda>k. (k, edge_of k (self_IL h))) (remdups_adj (map eid (get_IL h)))"
    and "distinct (remdups_adj (map eid (get_IL h)))"
    and "set (remdups_adj (map eid (get_IL h))) = set (map eid (self_IL h))"
proof -
  let ?s = "sort_key eid (rev (self_IL h))"
  have g: "get_IL h = rev ?s" by (simp add: get_IL_def py_sort_def)
  have "distinct (remdups_adj (map eid ?s))"
    by (rule distinct_remdups_adj_sorted) (rule sorted_sort_key)
  then show d: "distinct (remdups_adj (map eid (get_IL h)))"
    by (simp add: g rev_map[symmetric] remdups_adj_rev)
  have f: "filter (\<lambda>y. eid y = k) (get_IL h) = edge_of k (self_IL h)" for k
  proof -
    have "filter (\<lambda>y. eid y = k) ?s = filter (\<lambda>y. eid y = k) (rev (self_IL h))"
      by (rule sort_key_stable)
    then show ?thesis by (simp add: g edge_of_def rev_filter[symmetric])
  qed
  show "groupby (get_IL h) eid
           = map (\<lambda>k. (k, edge_of k (self_IL h))) (remdups_adj (map eid (get_IL h)))"
    using groupby_runs[OF d] by (simp add: f)
  show "set (remdups_adj (map eid (get_IL h))) = set (map eid (self_IL h))"
    unfolding remdups_adj_set g by simp
qed

lemma get_IL_keys:
  "remdups_adj (map eid (get_IL h)) = rev (sort (remdups (map eid (self_IL h))))"
proof -
  let ?s = "sort_key eid (rev (self_IL h))"
  let ?ks = "remdups_adj (map eid (get_IL h))"
  have g: "get_IL h = rev ?s" by (simp add: get_IL_def py_sort_def)
  have r: "rev ?ks = remdups_adj (map eid ?s)"
    by (simp add: g rev_map[symmetric] remdups_adj_rev)
  have "sorted (map eid ?s)" by (rule sorted_sort_key)
  then have s: "sorted (rev ?ks)" unfolding r by (rule sorted_remdups_adj)
  have d: "distinct (rev ?ks)" using get_IL_groups(2)[of h] by simp
  have e: "set (rev ?ks) = set (sort (remdups (map eid (self_IL h))))"
    using get_IL_groups(3)[of h] by simp
  have "rev ?ks = sort (remdups (map eid (self_IL h)))"
    by (rule sorted_distinct_set_unique[OF s d _ _ e]) simp_all
  then show ?thesis by (metis rev_rev_ident)
qed

lemma matching_pairs:
  "map W (filter (\<lambda>ab. nid (fst ab) = u \<and> nid (snd ab) = v)
            (concat (map (\<lambda>(k, edge). permutations2 edge) (groupby (get_IL h) eid))))
   = concat (map (\<lambda>e. map (\<lambda>(p, q). W (edge_of e (self_IL h) ! p, edge_of e (self_IL h) ! q))
                          (position_pairs (edge_of e (self_IL h)) u v))
                 (rev (sort (remdups (map eid (self_IL h))))))"
  by (simp add: get_IL_groups(1) get_IL_keys filter_concat map_concat comp_def
        filter_permutations2 case_prod_unfold)

lemma sum_list_same_set:
  fixes f :: "'a \<Rightarrow> 'b::comm_monoid_add"
  assumes "distinct xs" "distinct ys" "set xs = set ys"
  shows "sum_list (map f xs) = sum_list (map f ys)"
  using assms by (simp add: sum_list_distinct_conv_sum_set)

lemma sum_list_concat_map:
  "sum_list (concat (map f xs)) = (\<Sum>x\<leftarrow>xs. sum_list (f x))"
  by (induction xs) simp_all

lemma projection_terms_sum: "sum_list (projection_terms h u v) = projection_sum h u v"
proof -
  let ?S = "\<lambda>e. \<Sum>(p, q)\<leftarrow>position_pairs (edge_of e (self_IL h)) u v.
                 R_entry h (edge_of e (self_IL h) ! p) (edge_of e (self_IL h) ! q)"
  have "sum_list (projection_terms h u v)
          = (\<Sum>e\<leftarrow>rev (sort (remdups (map eid (self_IL h)))). ?S e)"
    by (simp add: projection_terms_def sum_list_concat_map)
  also have "\<dots> = (\<Sum>e\<leftarrow>remdups (map eid (self_IL h)). ?S e)"
    by (rule sum_list_same_set) simp_all
  finally show ?thesis by (simp add: projection_sum_def)
qed

lemma matching_pairs_count:
  "length (filter (\<lambda>ab. nid (fst ab) = u \<and> nid (snd ab) = v)
            (concat (map (\<lambda>(k, edge). permutations2 edge) (groupby (get_IL h) eid))))
   = co_membership_count h u v"
proof -
  let ?L = "\<lambda>e. length (position_pairs (edge_of e (self_IL h)) u v)"
  have "length (filter (\<lambda>ab. nid (fst ab) = u \<and> nid (snd ab) = v)
            (concat (map (\<lambda>(k, edge). permutations2 edge) (groupby (get_IL h) eid))))
      = length (map (\<lambda>_. ()) (filter (\<lambda>ab. nid (fst ab) = u \<and> nid (snd ab) = v)
            (concat (map (\<lambda>(k, edge). permutations2 edge) (groupby (get_IL h) eid)))))"
    by simp
  also have "\<dots> = (\<Sum>e\<leftarrow>rev (sort (remdups (map eid (self_IL h)))). ?L e)"
    unfolding matching_pairs by (simp add: length_concat comp_def)
  also have "\<dots> = (\<Sum>e\<leftarrow>remdups (map eid (self_IL h)). ?L e)"
    by (rule sum_list_same_set) simp_all
  finally show ?thesis by (simp add: co_membership_count_def)
qed

lemma exact_on_iff:
  "exact_on fadd ts
     \<longleftrightarrow> (\<forall>i<length ts. fadd (sum_list (take i ts)) (ts ! i) = sum_list (take i ts) + ts ! i)"
  by (auto simp: exact_on_def list_all_iff)

lemma exact_on_foldl:
  assumes "exact_on fadd ts"
  shows "foldl fadd 0 ts = sum_list ts"
  using assms
proof (induction ts rule: rev_induct)
  case Nil
  show ?case by simp
next
  case (snoc t ts)
  from snoc.prems have all: "\<And>i. i < Suc (length ts) \<Longrightarrow>
      fadd (sum_list (take i (ts @ [t]))) ((ts @ [t]) ! i)
        = sum_list (take i (ts @ [t])) + (ts @ [t]) ! i"
    by (simp add: exact_on_iff)
  have "exact_on fadd ts"
    unfolding exact_on_iff
  proof (intro allI impI)
    fix i assume i: "i < length ts"
    with all[of i] show "fadd (sum_list (take i ts)) (ts ! i) = sum_list (take i ts) + ts ! i"
      by (simp add: nth_append)
  qed
  with snoc.IH have ih: "foldl fadd 0 ts = sum_list ts" by simp
  from all[of "length ts"] have "fadd (sum_list ts) t = sum_list ts + t" by simp
  with ih show ?case by simp
qed

lemma foldl_replicate_funpow:
  "foldl fadd x (replicate n (c::real)) = ((\<lambda>y. fadd y c) ^^ n) x"
proof (induction n)
  case 0
  show ?case by simp
next
  case (Suc n)
  have "replicate (Suc n) c = replicate n c @ [c]" by (simp add: replicate_append_same)
  then have "foldl fadd x (replicate (Suc n) c) = fadd (foldl fadd x (replicate n c)) c"
    by (simp only: foldl_append foldl_Cons foldl_Nil)
  with Suc.IH show ?case by simp
qed

lemma default_R_frame [simp]:
  "self_IL (default_R h) = self_IL h" "self_roles (default_R h) = self_roles h"
  by (cases "self_R h"; simp add: default_R_def)+

lemma map_of_foldl_update:
  "map_of (foldl (\<lambda>d (k, v). AList.update k v d) d kvs) k
     = (case map_of (rev kvs) k of None \<Rightarrow> map_of d k | Some v \<Rightarrow> Some v)"
proof (induction kvs arbitrary: d)
  case Nil
  show ?case by simp
next
  case (Cons kv kvs)
  obtain k' v' where kv: "kv = (k', v')" by (cases kv)
  show ?case
    by (simp add: kv Cons.IH update_conv' map_add_def split: option.splits)
qed

lemma map_of_dict_of: "map_of (dict_of kvs) = map_of (rev kvs)"
  by (rule ext) (simp add: dict_of_def map_of_foldl_update split: option.splits)

lemma role_map_lookup:
  assumes "r \<in> set (self_roles h)"
  shows "\<exists>p < length (self_roles h). getitem (role_map h) r = Inr p"
proof -
  let ?z = "zip (self_roles h) [0..<length (self_roles h)]"
  have "map fst ?z = self_roles h" by simp
  then have "fst ` set ?z = set (self_roles h)" by (metis set_map)
  then have "r \<in> fst ` set (rev ?z)" using assms by simp
  then obtain p where p: "map_of (rev ?z) r = Some p"
    by (metis map_of_eq_None_iff not_Some_eq)
  then have "(r, p) \<in> set ?z" by (metis map_of_SomeD set_rev)
  then have "p < length (self_roles h)" by (auto dest: set_zip_rightD)
  with p show ?thesis by (simp add: getitem_def role_map_def map_of_dict_of)
qed

lemma role_index_nth:
  assumes "distinct rs" "p < length rs"
  shows "role_index rs (rs ! p) = p"
proof -
  have "takeWhile (\<lambda>x. x \<noteq> rs ! p) rs = take p rs"
  proof (rule takeWhile_eq_take_P_nth)
    fix i assume "i < p" "i < length rs"
    with assms show "rs ! i \<noteq> rs ! p" by (simp add: nth_eq_iff_index_eq)
  next
    show "\<not> rs ! p \<noteq> rs ! p" by simp
  qed
  with assms(2) show ?thesis by (simp add: role_index_def)
qed

lemma role_map_index:
  assumes d: "distinct (self_roles h)" and g: "getitem (role_map h) r = Inr p"
  shows "p = role_index (self_roles h) r"
proof -
  let ?z = "zip (self_roles h) [0..<length (self_roles h)]"
  from g have "map_of (rev ?z) r = Some p"
    by (simp add: getitem_def role_map_def map_of_dict_of split: option.splits)
  then have "(r, p) \<in> set ?z" by (metis map_of_SomeD set_rev)
  then obtain i where i: "i < length (self_roles h)" "self_roles h ! i = r" "p = i"
    by (auto simp: set_zip)
  with role_index_nth[OF d i(1)] show ?thesis by simp
qed

lemma interaction_R_entry:
  assumes "distinct (self_roles h)" "interaction h a b = Inr x"
  shows "x = R_entry h a b"
proof -
  from assms(2) obtain p q r where
    p: "getitem (role_map h) (role a) = Inr p" and
    q: "getitem (role_map h) (role b) = Inr q" and
    r: "self_R h = Some r" and
    x: "p < length r" "q < length (r ! p)" "x = r ! p ! q"
    by (auto simp: interaction_def nth_err_def split: sum.splits option.splits if_splits)
  from role_map_index[OF assms(1) p] role_map_index[OF assms(1) q] r x(3)
  show ?thesis by (simp add: R_entry_def)
qed

lemma interaction_ones:
  assumes "self_R h = Some (np_ones n)" "interaction h a b = Inr x"
  shows "x = 1"
  using assms
  by (auto simp: interaction_def nth_err_def np_ones_def split: sum.splits if_splits)

lemma interaction_defined:
  assumes a: "role a \<in> set (self_roles h)" and b: "role b \<in> set (self_roles h)"
    and shape: "R_shape_ok h"
  shows "\<exists>x. interaction (default_R h) a b = Inr x"
proof -
  let ?n = "length (self_roles h)"
  have rm: "role_map (default_R h) = role_map h" by (simp add: role_map_def)
  from role_map_lookup[OF a] obtain p where p: "p < ?n" "getitem (role_map h) (role a) = Inr p"
    by blast
  from role_map_lookup[OF b] obtain q where q: "q < ?n" "getitem (role_map h) (role b) = Inr q"
    by blast
  obtain r where r: "self_R (default_R h) = Some r" "length r = ?n"
    "\<forall>row \<in> set r. length row = ?n"
  proof (cases "self_R h")
    case None
    then have "self_R (default_R h) = Some (np_ones ?n)" by (simp add: default_R_def)
    then show ?thesis by (rule that) (simp_all add: np_ones_def)
  next
    case (Some r)
    with shape have "length r = ?n" "\<forall>row \<in> set r. length row = ?n"
      by (simp_all add: R_shape_ok_def list_all_iff)
    moreover have "self_R (default_R h) = Some r" using Some by (simp add: default_R_def)
    ultimately show ?thesis using that by blast
  qed
  have "q < length (r ! p)" using r p(1) q(1) by simp
  then show ?thesis
    using p q r by (simp add: interaction_def rm nth_err_def)
qed

lemma set_permutations2: "set (permutations2 E) \<subseteq> set E \<times> set E"
  by (auto simp: permutations2_def)

lemma projection_unfold:
  "to_weighted_projection fadd h = Inr (w, h') \<longleftrightarrow>
     h' = default_R h \<and>
     (\<forall>ab \<in> set (concat (map (\<lambda>(k, edge). permutations2 edge) (groupby (get_IL h) eid))).
         \<exists>x. interaction (default_R h) (fst ab) (snd ab) = Inr x) \<and>
     w = foldl (\<lambda>d ab. add_weight fadd (nid (fst ab)) (nid (snd ab))
                  (case interaction (default_R h) (fst ab) (snd ab) of
                     Inl err \<Rightarrow> 0 | Inr x \<Rightarrow> x) d) []
           (concat (map (\<lambda>(k, edge). permutations2 edge) (groupby (get_IL h) eid)))"
proof -
  have gi: "get_IL (default_R h) = get_IL h" by (simp add: get_IL_def)
  show ?thesis
    unfolding to_weighted_projection_def Let_def gi
    using foldM_weights[of fadd "interaction (default_R h)"
        "concat (map (\<lambda>(k, edge). permutations2 edge) (groupby (get_IL h) eid))" "[]"]
    by (auto split: sum.splits)
qed

lemma projection_fold:
  assumes run: "to_weighted_projection fadd h = Inr (w, h')"
    and W: "\<And>a b x. interaction (default_R h) a b = Inr x \<Longrightarrow> x = W (a, b)"
  shows "weight_at w u v
           = foldl fadd 0
               (concat (map (\<lambda>e. map (\<lambda>(p, q). W (edge_of e (self_IL h) ! p,
                                                    edge_of e (self_IL h) ! q))
                                      (position_pairs (edge_of e (self_IL h)) u v))
                            (rev (sort (remdups (map eid (self_IL h)))))))"
proof -
  let ?pairs = "concat (map (\<lambda>(k, edge). permutations2 edge) (groupby (get_IL h) eid))"
  let ?V = "\<lambda>ab. case interaction (default_R h) (fst ab) (snd ab) of Inl err \<Rightarrow> 0 | Inr x \<Rightarrow> x"
  let ?c = "\<lambda>ab. nid (fst ab) = u \<and> nid (snd ab) = v"
  from run have ok: "\<forall>ab \<in> set ?pairs. \<exists>x. interaction (default_R h) (fst ab) (snd ab) = Inr x"
    and w: "w = foldl (\<lambda>d ab. add_weight fadd (nid (fst ab)) (nid (snd ab)) (?V ab) d) [] ?pairs"
    by (simp_all add: projection_unfold)
  have VW: "?V ab = W ab" if "ab \<in> set ?pairs" for ab
  proof -
    from ok that obtain x where x: "interaction (default_R h) (fst ab) (snd ab) = Inr x" by blast
    from W[OF x] x show ?thesis by simp
  qed
  have "weight_at w u v = foldl fadd 0 (map ?V (filter ?c ?pairs))"
    unfolding w weight_at_foldl by simp
  also have "map ?V (filter ?c ?pairs) = map W (filter ?c ?pairs)"
    by (rule map_cong[OF refl]) (simp add: VW)
  finally show ?thesis by (simp only: matching_pairs)
qed

lemma projection_weight:
  assumes run: "to_weighted_projection fadd h = Inr (w, h')"
    and d: "distinct (self_roles h)"
  shows "weight_at w u v = foldl fadd 0 (projection_terms h' u v)"
proof -
  from run have h': "h' = default_R h" by (simp add: projection_unfold)
  have "x = R_entry (default_R h) (fst (a, b)) (snd (a, b))"
    if "interaction (default_R h) a b = Inr x" for a b x
    using interaction_R_entry[OF _ that] d by simp
  from projection_fold[where W = "\<lambda>ab. R_entry (default_R h) (fst ab) (snd ab)"
        and u = u and v = v, OF run this]
  show ?thesis by (simp add: projection_terms_def h')
qed

lemma projection_count:
  assumes run: "to_weighted_projection fadd h = Inr (w, h')" and none: "self_R h = None"
  shows "weight_at w u v = ((\<lambda>x. fadd x 1) ^^ co_membership_count h u v) 0"
proof -
  let ?pairs = "concat (map (\<lambda>(k, edge). permutations2 edge) (groupby (get_IL h) eid))"
  let ?c = "\<lambda>ab. nid (fst ab) = u \<and> nid (snd ab) = v"
  have R1: "self_R (default_R h) = Some (np_ones (length (self_roles h)))"
    using none by (simp add: default_R_def)
  have "weight_at w u v
          = foldl fadd 0
              (concat (map (\<lambda>e. map (\<lambda>(p, q). (\<lambda>_. 1) (edge_of e (self_IL h) ! p,
                                                         edge_of e (self_IL h) ! q))
                                     (position_pairs (edge_of e (self_IL h)) u v))
                           (rev (sort (remdups (map eid (self_IL h)))))))"
    by (rule projection_fold[OF run]) (erule interaction_ones[OF R1])
  then have "weight_at w u v = foldl fadd 0 (map (\<lambda>_. 1) (filter ?c ?pairs))"
    using matching_pairs[where W = "\<lambda>_. 1::real" and u = u and v = v and h = h] by simp
  also have "\<dots> = foldl fadd 0 (replicate (co_membership_count h u v) 1)"
    by (simp only: map_replicate_const matching_pairs_count)
  finally show ?thesis by (simp only: foldl_replicate_funpow)
qed

lemma exact_on_ones:
  assumes "exact_on fadd (replicate n 1)"
  shows "((\<lambda>x. fadd x 1) ^^ n) 0 = real n"
  using exact_on_foldl[OF assms] by (simp add: foldl_replicate_funpow sum_list_replicate)

lemma projection_returns:
  assumes roles: "set (map role (self_IL h)) \<subseteq> set (self_roles h)" and shape: "R_shape_ok h"
  shows "\<exists>w h'. to_weighted_projection fadd h = Inr (w, h')"
proof -
  let ?pairs = "concat (map (\<lambda>(k, edge). permutations2 edge) (groupby (get_IL h) eid))"
  have "\<exists>x. interaction (default_R h) (fst ab) (snd ab) = Inr x" if "ab \<in> set ?pairs" for ab
  proof -
    from that obtain k where "ab \<in> set (permutations2 (edge_of k (self_IL h)))"
      by (auto simp: get_IL_groups(1))
    with set_permutations2[of "edge_of k (self_IL h)"]
    have "ab \<in> set (edge_of k (self_IL h)) \<times> set (edge_of k (self_IL h))" by blast
    then have "fst ab \<in> set (self_IL h)" "snd ab \<in> set (self_IL h)"
      by (auto simp: edge_of_def)
    with roles have "role (fst ab) \<in> set (self_roles h)" "role (snd ab) \<in> set (self_roles h)"
      by auto
    then show ?thesis using shape by (rule interaction_defined)
  qed
  then show ?thesis by (simp add: projection_unfold)
qed

lemma role_map_declared:
  assumes "getitem (role_map h) r = Inr p"
  shows "r \<in> set (self_roles h)"
proof -
  let ?z = "zip (self_roles h) [0..<length (self_roles h)]"
  from assms have "map_of (rev ?z) r = Some p"
    by (simp add: getitem_def role_map_def map_of_dict_of split: option.splits)
  then have "(r, p) \<in> set ?z" by (metis map_of_SomeD set_rev)
  then show ?thesis by (rule set_zip_leftD)
qed

lemma role_index_less: "r \<in> set rs \<Longrightarrow> role_index rs r < length rs"
  unfolding role_index_def by (induction rs) auto

lemma R_entry_ones:
  assumes run: "interaction h a b = Inr x" and R: "self_R h = Some (np_ones (length (self_roles h)))"
  shows "R_entry h a b = 1"
proof -
  from run have "role a \<in> set (self_roles h)" "role b \<in> set (self_roles h)"
    by (auto simp: interaction_def split: sum.splits dest: role_map_declared)
  then have "role_index (self_roles h) (role a) < length (self_roles h)"
    "role_index (self_roles h) (role b) < length (self_roles h)"
    by (simp_all add: role_index_less)
  then show ?thesis by (simp add: R_entry_def R np_ones_def)
qed

lemma position_pairs_permutations2:
  assumes "pq \<in> set (position_pairs E u v)"
  shows "(E ! fst pq, E ! snd pq) \<in> set (permutations2 E)"
proof -
  from assms have "pq \<in> set (filter (\<lambda>(p, q). p \<noteq> q) (List.product [0..<length E] [0..<length E]))"
    by (auto simp: position_pairs_def)
  then show ?thesis
    unfolding permutations2_positions by (force simp: case_prod_unfold)
qed

lemma real_sum_list_nat: "(\<Sum>x\<leftarrow>xs. real (f x)) = real (\<Sum>x\<leftarrow>xs. f x)"
  by (induction xs) simp_all

lemma projection_sum_count:
  assumes run: "to_weighted_projection fadd h = Inr (w, h')" and none: "self_R h = None"
  shows "projection_sum h' u v = real (co_membership_count h u v)"
proof -
  let ?pairs = "concat (map (\<lambda>(k, edge). permutations2 edge) (groupby (get_IL h) eid))"
  let ?E = "\<lambda>e. edge_of e (self_IL h)"
  from run have h': "h' = default_R h"
    and ok: "\<forall>ab \<in> set ?pairs. \<exists>x. interaction (default_R h) (fst ab) (snd ab) = Inr x"
    by (simp_all add: projection_unfold)
  have R1: "self_R (default_R h) = Some (np_ones (length (self_roles (default_R h))))"
    using none by (simp add: default_R_def)
  have one: "R_entry (default_R h) (?E e ! fst pq) (?E e ! snd pq) = 1"
    if e: "e \<in> set (remdups (map eid (self_IL h)))" and pq: "pq \<in> set (position_pairs (?E e) u v)"
    for e pq
  proof -
    from e have "e \<in> set (remdups_adj (map eid (get_IL h)))"
      by (simp only: get_IL_groups(3) set_remdups)
    with position_pairs_permutations2[OF pq]
    have "(?E e ! fst pq, ?E e ! snd pq) \<in> set ?pairs"
      by (auto simp: get_IL_groups(1))
    with ok obtain x where "interaction (default_R h) (?E e ! fst pq) (?E e ! snd pq) = Inr x"
      by fastforce
    then show ?thesis using R1 by (rule R_entry_ones)
  qed
  have inner: "(\<Sum>pq\<leftarrow>position_pairs (?E e) u v.
                   R_entry (default_R h) (?E e ! fst pq) (?E e ! snd pq))
               = real (length (position_pairs (?E e) u v))"
    if e: "e \<in> set (remdups (map eid (self_IL h)))" for e
  proof -
    have m: "map (\<lambda>pq. R_entry (default_R h) (?E e ! fst pq) (?E e ! snd pq))
              (position_pairs (?E e) u v)
          = map (\<lambda>pq. 1) (position_pairs (?E e) u v)"
      by (rule map_cong[OF refl]) (rule one[OF e])
    show ?thesis unfolding m by (simp add: sum_list_triv)
  qed
  have "projection_sum h' u v
      = (\<Sum>e\<leftarrow>remdups (map eid (self_IL h)).
           \<Sum>pq\<leftarrow>position_pairs (?E e) u v.
              R_entry (default_R h) (?E e ! fst pq) (?E e ! snd pq))"
    by (simp add: projection_sum_def h' case_prod_unfold)
  also have "\<dots> = (\<Sum>e\<leftarrow>remdups (map eid (self_IL h)). real (length (position_pairs (?E e) u v)))"
    by (rule arg_cong[where f = sum_list], rule map_cong[OF refl]) (rule inner)
  also have "\<dots> = real (co_membership_count h u v)"
    by (simp only: co_membership_count_def real_sum_list_nat)
  finally show ?thesis .
qed

text \<open>
  C7. When \<^verbatim>\<open>to_weighted_projection\<close> returns, the store holds the matrix \<open>R\<close> it had, or the
  all-ones matrix if it had none. With pairwise distinct roles, the weight returned for every
  ordered pair of node ids \<open>(u, v)\<close> is the floating-point sum, taken over the edges by
  descending edge id and in each edge over the ordered pairs of distinct incidences \<open>(a, b)\<close>
  with \<open>a.nid = u\<close> and \<open>b.nid = v\<close> by position, of \<^verbatim>\<open>R[role(a), role(b)]\<close>, the entry in the
  row of the role of \<open>a\<close> and the column of the role of \<open>b\<close>; where the additions are exact it is
  the sum of these entries. When no matrix was assigned before the call, the weight is 1.0
  added to 0.0 once for each such pair, and the sum of the entries is their number: where
  the additions are exact the weight is the directed co-membership count. The call returns
  whenever every incidence has a declared role and the assigned matrix, if any, has one row
  and one column per role.
\<close>

theorem C7:
  "(\<forall>w h'. to_weighted_projection fadd h = Inr (w, h') \<longrightarrow>
      h' = default_R h \<and>
      (distinct (self_roles h) \<longrightarrow>
         (\<forall>u v. weight_at w u v = foldl fadd 0 (projection_terms h' u v) \<and>
                sum_list (projection_terms h' u v) = projection_sum h' u v \<and>
                (exact_on fadd (projection_terms h' u v) \<longrightarrow>
                   weight_at w u v = projection_sum h' u v))) \<and>
      (self_R h = None \<longrightarrow>
         self_R h' = Some (np_ones (length (self_roles h))) \<and>
         (\<forall>u v. weight_at w u v = ((\<lambda>x. fadd x 1) ^^ co_membership_count h u v) 0 \<and>
                projection_sum h' u v = real (co_membership_count h u v) \<and>
                (exact_on fadd (replicate (co_membership_count h u v) 1) \<longrightarrow>
                   weight_at w u v = real (co_membership_count h u v))))) \<and>
   (set (map role (self_IL h)) \<subseteq> set (self_roles h) \<and> R_shape_ok h \<longrightarrow>
      (\<exists>w h'. to_weighted_projection fadd h = Inr (w, h')))"
proof -
  have a: "h' = default_R h \<and>
      (distinct (self_roles h) \<longrightarrow>
         (\<forall>u v. weight_at w u v = foldl fadd 0 (projection_terms h' u v) \<and>
                sum_list (projection_terms h' u v) = projection_sum h' u v \<and>
                (exact_on fadd (projection_terms h' u v) \<longrightarrow>
                   weight_at w u v = projection_sum h' u v))) \<and>
      (self_R h = None \<longrightarrow>
         self_R h' = Some (np_ones (length (self_roles h))) \<and>
         (\<forall>u v. weight_at w u v = ((\<lambda>x. fadd x 1) ^^ co_membership_count h u v) 0 \<and>
                projection_sum h' u v = real (co_membership_count h u v) \<and>
                (exact_on fadd (replicate (co_membership_count h u v) 1) \<longrightarrow>
                   weight_at w u v = real (co_membership_count h u v))))"
    if run: "to_weighted_projection fadd h = Inr (w, h')" for w h'
  proof -
    from run have h': "h' = default_R h" by (simp add: projection_unfold)
    have general: "weight_at w u v = foldl fadd 0 (projection_terms h' u v) \<and>
                sum_list (projection_terms h' u v) = projection_sum h' u v \<and>
                (exact_on fadd (projection_terms h' u v) \<longrightarrow>
                   weight_at w u v = projection_sum h' u v)"
      if d: "distinct (self_roles h)" for u v
    proof -
      note f = projection_weight[OF run d, of u v]
      note s = projection_terms_sum[of h' u v]
      have "weight_at w u v = projection_sum h' u v"
        if "exact_on fadd (projection_terms h' u v)"
        using exact_on_foldl[OF that] f s by simp
      with f s show ?thesis by blast
    qed
    have ones: "self_R h' = Some (np_ones (length (self_roles h)))" if "self_R h = None"
      using that h' by (simp add: default_R_def)
    have count: "weight_at w u v = ((\<lambda>x. fadd x 1) ^^ co_membership_count h u v) 0 \<and>
                projection_sum h' u v = real (co_membership_count h u v) \<and>
                (exact_on fadd (replicate (co_membership_count h u v) 1) \<longrightarrow>
                   weight_at w u v = real (co_membership_count h u v))"
      if none: "self_R h = None" for u v
    proof -
      note c = projection_count[OF run none, of u v]
      have "weight_at w u v = real (co_membership_count h u v)"
        if "exact_on fadd (replicate (co_membership_count h u v) 1)"
        using exact_on_ones[OF that] c by simp
      with c projection_sum_count[OF run none, of u v] show ?thesis by blast
    qed
    from h' general ones count show ?thesis by blast
  qed
  have b: "\<exists>w h'. to_weighted_projection fadd h = Inr (w, h')"
    if "set (map role (self_IL h)) \<subseteq> set (self_roles h) \<and> R_shape_ok h"
    using that projection_returns by blast
  from a b show ?thesis by blast
qed

lemma exact_on_plus: "exact_on (+) ts"
  by (simp add: exact_on_iff)

lemma ex_two_four_R_projection:
  "to_weighted_projection (+) ex_two_four_R =
     Inr ([(2, [(1, 5), (4, 2), (3, 4)]), (1, [(2, 5), (4, 4), (3, 2)]),
           (4, [(2, 3), (1, 4)]), (3, [(1, 3), (2, 4)])],
          ex_two_four_R)"
  by code_simp

lemma ex_two_four_R_wf:
  "distinct (self_roles ex_two_four_R)"
  "set (map role (self_IL ex_two_four_R)) \<subseteq> set (self_roles ex_two_four_R)"
  "R_shape_ok ex_two_four_R"
  by code_simp+

lemma ex_two_four_R_sums:
  "projection_sum ex_two_four_R 1 3 = 2" "projection_sum ex_two_four_R 3 1 = 3"
  "projection_terms ex_two_four_R 1 2 = [3, 2]"
  by code_simp+

lemma ex_two_four_projection:
  "to_weighted_projection (+) ex_two_four =
     Inr ([(2, [(1, 2), (4, 1), (3, 1)]), (1, [(2, 2), (4, 1), (3, 1)]),
           (4, [(2, 1), (1, 1)]), (3, [(1, 1), (2, 1)])],
          ex_two_four\<lparr>self_R := Some [[1, 1], [1, 1]]\<rparr>)"
  by code_simp

lemma ex_two_four_wf:
  "set (map role (self_IL ex_two_four)) \<subseteq> set (self_roles ex_two_four)"
  "R_shape_ok ex_two_four" "self_R ex_two_four = None"
  by code_simp+

lemma ex_two_four_count: "co_membership_count ex_two_four 1 2 = 2"
  by code_simp

theorem C7_witness:
  "distinct (self_roles ex_two_four_R) \<and>
   set (map role (self_IL ex_two_four_R)) \<subseteq> set (self_roles ex_two_four_R) \<and>
   R_shape_ok ex_two_four_R \<and>
   to_weighted_projection (+) ex_two_four_R =
     Inr ([(2, [(1, 5), (4, 2), (3, 4)]), (1, [(2, 5), (4, 4), (3, 2)]),
           (4, [(2, 3), (1, 4)]), (3, [(1, 3), (2, 4)])],
          ex_two_four_R) \<and>
   exact_on (+) (projection_terms ex_two_four_R 1 3) \<and>
   exact_on (+) (projection_terms ex_two_four_R 3 1) \<and>
   weight_at [(2, [(1, 5), (4, 2), (3, 4)]), (1, [(2, 5), (4, 4), (3, 2)]),
              (4, [(2, 3), (1, 4)]), (3, [(1, 3), (2, 4)])] 1 3
     = projection_sum ex_two_four_R 1 3 \<and>
   projection_sum ex_two_four_R 1 3 = 2 \<and>
   weight_at [(2, [(1, 5), (4, 2), (3, 4)]), (1, [(2, 5), (4, 4), (3, 2)]),
              (4, [(2, 3), (1, 4)]), (3, [(1, 3), (2, 4)])] 3 1
     = projection_sum ex_two_four_R 3 1 \<and>
   projection_sum ex_two_four_R 3 1 = 3 \<and>
   weight_at [(2, [(1, 5), (4, 2), (3, 4)]), (1, [(2, 5), (4, 4), (3, 2)]),
              (4, [(2, 3), (1, 4)]), (3, [(1, 3), (2, 4)])] 1 2
     = foldl (+) 0 (projection_terms ex_two_four_R 1 2) \<and>
   projection_terms ex_two_four_R 1 2 = [3, 2] \<and>
   set (map role (self_IL ex_two_four)) \<subseteq> set (self_roles ex_two_four) \<and>
   R_shape_ok ex_two_four \<and> self_R ex_two_four = None \<and>
   to_weighted_projection (+) ex_two_four =
     Inr ([(2, [(1, 2), (4, 1), (3, 1)]), (1, [(2, 2), (4, 1), (3, 1)]),
           (4, [(2, 1), (1, 1)]), (3, [(1, 1), (2, 1)])],
          ex_two_four\<lparr>self_R := Some [[1, 1], [1, 1]]\<rparr>) \<and>
   exact_on (+) (replicate (co_membership_count ex_two_four 1 2) 1) \<and>
   weight_at [(2, [(1, 2), (4, 1), (3, 1)]), (1, [(2, 2), (4, 1), (3, 1)]),
              (4, [(2, 1), (1, 1)]), (3, [(1, 1), (2, 1)])] 1 2
     = real (co_membership_count ex_two_four 1 2) \<and>
   co_membership_count ex_two_four 1 2 = 2"
proof -
  let ?W = "[(2, [(1, 5), (4, 2), (3, 4)]), (1, [(2, 5), (4, 4), (3, 2)]),
             (4, [(2, 3), (1, 4)]), (3, [(1, 3), (2, 4)])] :: weights"
  let ?W1 = "[(2, [(1, 2), (4, 1), (3, 1)]), (1, [(2, 2), (4, 1), (3, 1)]),
              (4, [(2, 1), (1, 1)]), (3, [(1, 1), (2, 1)])] :: weights"
  from C7[of "(+)" ex_two_four_R] ex_two_four_R_projection ex_two_four_R_wf(1)
  have g: "\<forall>u v. weight_at ?W u v = foldl (+) 0 (projection_terms ex_two_four_R u v) \<and>
                (exact_on (+) (projection_terms ex_two_four_R u v) \<longrightarrow>
                   weight_at ?W u v = projection_sum ex_two_four_R u v)"
    by blast
  from g exact_on_plus have g1: "weight_at ?W 1 3 = projection_sum ex_two_four_R 1 3"
    and g2: "weight_at ?W 3 1 = projection_sum ex_two_four_R 3 1"
    and g3: "weight_at ?W 1 2 = foldl (+) 0 (projection_terms ex_two_four_R 1 2)"
    by blast+
  from C7[of "(+)" ex_two_four] ex_two_four_projection ex_two_four_wf(3)
  have "exact_on (+) (replicate (co_membership_count ex_two_four 1 2) 1) \<longrightarrow>
          weight_at ?W1 1 2 = real (co_membership_count ex_two_four 1 2)"
    by blast
  with exact_on_plus have c: "weight_at ?W1 1 2 = real (co_membership_count ex_two_four 1 2)"
    by blast
  show ?thesis
    using ex_two_four_R_wf ex_two_four_R_projection exact_on_plus g1 g2 g3 ex_two_four_R_sums
      ex_two_four_wf ex_two_four_projection c ex_two_four_count
    by (simp only: simp_thms)
qed


subsection \<open>Stub matching keeps the edge dimensions by role\<close>


lemma dd_get_Counter_foldl:
  "dd_get (foldl (\<lambda>c x. AList.update x (dd_get c x 0 + 1) c) c xs) k 0
     = dd_get c k 0 + count_list xs k"
proof (induction xs arbitrary: c)
  case Nil
  show ?case by simp
next
  case (Cons x xs)
  let ?c1 = "AList.update x (dd_get c x 0 + 1) c"
  have "dd_get (foldl (\<lambda>c x. AList.update x (dd_get c x 0 + 1) c) c (x # xs)) k 0
      = dd_get (foldl (\<lambda>c x. AList.update x (dd_get c x 0 + 1) c) ?c1 xs) k 0"
    by (simp only: foldl_Cons)
  also have "\<dots> = dd_get ?c1 k 0 + count_list xs k" by (rule Cons.IH)
  also have "dd_get ?c1 k 0 = dd_get c k 0 + (if x = k then 1 else 0)"
    by (simp add: dd_get_def update_conv')
  finally show ?case by simp
qed

lemma dd_get_Counter: "dd_get (Counter xs) k 0 = count_list xs k"
proof -
  have "dd_get ([] :: ('a \<times> nat) list) k 0 = 0" by (simp add: dd_get_def)
  then show ?thesis unfolding Counter_def dd_get_Counter_foldl by simp
qed

lemma count_list_map_filter:
  "count_list (map f (filter P xs)) k = length (filter (\<lambda>x. f x = k \<and> P x) xs)"
  by (induction xs) auto

lemma traverse_all_Inr:
  assumes "\<And>x. x \<in> set xs \<Longrightarrow> f x = Inr (g x)"
  shows "traverse f xs = Inr (map g xs)"
  using assms by (induction xs) simp_all

lemma dd_get_map_of:
  "map_of d k = Some v \<Longrightarrow> dd_get d k dflt = v"
  by (simp add: dd_get_def)

lemma map_of_keyed:
  "k \<in> set ks \<Longrightarrow> map_of (map (\<lambda>k. (k, f k)) ks) k = Some (f k)"
  by (induction ks) auto

lemma sorted_role_only: "sorted (map (\<lambda>x. map (getattr x) [Role]) il) \<Longrightarrow> sorted (map role il)"
  by (induction il) (auto simp: less_eq_list_code)

lemma by_role_counts_sorted:
  assumes srt: "sorted (map role (self_IL h))"
    and dr: "distinct (self_roles h)"
    and used: "set (self_roles h) \<subseteq> role ` set (self_IL h)"
    and dk: "distinct ks"
  shows "by_role_counts attr ks h =
           Inr (map (\<lambda>k. (k, map (\<lambda>r. (r, length (filter (\<lambda>x. attr x = k \<and> role x = r)
                                                         (self_IL h)))) (self_roles h))) ks)"
proof -
  let ?il = "self_IL h" and ?rs = "self_roles h"
  let ?present = "remdups_adj (map role ?il)"
  have dp: "distinct ?present" using srt by (rule distinct_remdups_adj_sorted)
  have g: "groupby ?il role = map (\<lambda>r. (r, filter (\<lambda>y. role y = r) ?il)) ?present"
    by (rule groupby_runs[OF dp])
  have "distinct (map fst (groupby ?il role))" using dp by (simp add: groupby_keys)
  then have br: "dict_of (groupby ?il role) = map (\<lambda>r. (r, filter (\<lambda>y. role y = r) ?il)) ?present"
    by (simp add: dict_of_distinct g)
  have look: "getitem (dict_of (groupby ?il role)) r = Inr (filter (\<lambda>y. role y = r) ?il)"
    if "r \<in> set ?rs" for r
  proof -
    from that used have "r \<in> set ?present" by (auto simp: remdups_adj_set)
    then show ?thesis unfolding br getitem_def by (simp add: map_of_keyed)
  qed
  let ?dts = "map (\<lambda>r. (r, Counter (map attr (filter (\<lambda>y. role y = r) ?il)))) ?rs"
  have tr: "traverse (\<lambda>r. case getitem (dict_of (groupby ?il role)) r of Inl err \<Rightarrow> Inl err
                                | Inr g \<Rightarrow> Inr (r, Counter (map attr g))) ?rs = Inr ?dts"
    by (rule traverse_all_Inr) (simp add: look)
  have "distinct (map fst ?dts)" using dr by (simp add: comp_def)
  then have DT: "dict_of ?dts = ?dts" by (rule dict_of_distinct)
  have cnt: "dd_get (dd_get ?dts r []) k 0 = length (filter (\<lambda>x. attr x = k \<and> role x = r) ?il)"
    if "r \<in> set ?rs" for r k
    using that
    by (simp add: dd_get_map_of[OF map_of_keyed] dd_get_Counter count_list_map_filter)
  have inner: "dict_of (map (\<lambda>r. (r, dd_get (dd_get ?dts r []) k 0)) ?rs)
             = map (\<lambda>r. (r, length (filter (\<lambda>x. attr x = k \<and> role x = r) ?il))) ?rs" for k
  proof -
    have "distinct (map fst (map (\<lambda>r. (r, dd_get (dd_get ?dts r []) k 0)) ?rs))"
      using dr by (simp add: comp_def)
    then have "dict_of (map (\<lambda>r. (r, dd_get (dd_get ?dts r []) k 0)) ?rs)
             = map (\<lambda>r. (r, dd_get (dd_get ?dts r []) k 0)) ?rs"
      by (rule dict_of_distinct)
    also have "\<dots> = map (\<lambda>r. (r, length (filter (\<lambda>x. attr x = k \<and> role x = r) ?il))) ?rs"
      by (rule map_cong[OF refl]) (simp only: cnt)
    finally show ?thesis .
  qed
  have outer: "dict_of (map (\<lambda>k. (k, map (\<lambda>r. (r, length (filter (\<lambda>x. attr x = k \<and> role x = r) ?il))) ?rs)) ks)
             = map (\<lambda>k. (k, map (\<lambda>r. (r, length (filter (\<lambda>x. attr x = k \<and> role x = r) ?il))) ?rs)) ks"
    by (rule dict_of_distinct) (simp add: comp_def dk)
  show ?thesis
    unfolding by_role_counts_def Let_def tr
    by (simp only: sum.case DT inner outer)
qed


lemma foldM_append:
  "foldM f (xs @ ys) s = (case foldM f xs s of Inl err \<Rightarrow> Inl err | Inr s' \<Rightarrow> foldM f ys s')"
  by (induction xs arbitrary: s) (simp_all split: sum.splits)

lemma foldM_cong:
  assumes "\<And>x s. x \<in> set xs \<Longrightarrow> f x s = g x s"
  shows "foldM f xs s = foldM g xs s"
  using assms by (induction xs arbitrary: s) (simp_all split: sum.splits)

lemma foldM_concat:
  "foldM f (concat xss) s = foldM (\<lambda>xs. foldM f xs) xss s"
  by (induction xss arbitrary: s) (simp_all add: foldM_append split: sum.splits)

lemma foldM_repeat:
  "foldM (\<lambda>i. f) [0..<c] s = foldM (\<lambda>x. f) (replicate c x) s"
proof (induction c arbitrary: s)
  case 0
  show ?case by simp
next
  case (Suc c)
  have "foldM (\<lambda>i. f) [0..<Suc c] s = foldM (\<lambda>i. f) ([0..<c] @ [c]) s" by simp
  also have "\<dots> = foldM (\<lambda>x. f) (replicate c x @ [x]) s"
    unfolding foldM_append Suc.IH by (simp split: sum.splits)
  also have "replicate c x @ [x] = replicate (Suc c) x"
    by (simp add: replicate_append_same)
  finally show ?case .
qed

lemma fill_edge_steps:
  assumes e: "e \<in> set ks"
  shows "fill_edge (map (\<lambda>k. (k, map (\<lambda>r. (r, cnt k r)) rs)) ks) rs e st
       = foldM (\<lambda>er. add_stub (fst er) (snd er))
               (concat (map (\<lambda>r. replicate (cnt e r) (e, r)) rs)) st"
proof -
  let ?dims = "map (\<lambda>k. (k, map (\<lambda>r. (r, cnt k r)) rs)) ks"
  have row: "getitem ?dims e = Inr (map (\<lambda>r. (r, cnt e r)) rs)"
    using e by (simp add: getitem_def map_of_keyed)
  have body: "(case getitem ?dims e of Inl err \<Rightarrow> Inl err
               | Inr dims_e \<Rightarrow> (case getitem dims_e r of Inl err \<Rightarrow> Inl err
               | Inr c \<Rightarrow> foldM (\<lambda>i. add_stub e r) [0..<c] s))
            = foldM (\<lambda>er. add_stub (fst er) (snd er)) (replicate (cnt e r) (e, r)) s"
    if "r \<in> set rs" for r s
  proof -
    have "getitem (map (\<lambda>r. (r, cnt e r)) rs) r = Inr (cnt e r)"
      using that by (simp add: getitem_def map_of_keyed)
    moreover have "foldM (\<lambda>i. add_stub e r) [0..<cnt e r] s
                 = foldM (\<lambda>er. add_stub e r) (replicate (cnt e r) (e, r)) s"
      by (rule foldM_repeat)
    moreover have "foldM (\<lambda>er. add_stub e r) (replicate (cnt e r) (e, r)) s
                 = foldM (\<lambda>er. add_stub (fst er) (snd er)) (replicate (cnt e r) (e, r)) s"
      by (rule foldM_cong) simp
    ultimately show ?thesis by (simp add: row)
  qed
  have "fill_edge ?dims rs e st
      = foldM (\<lambda>r. foldM (\<lambda>er. add_stub (fst er) (snd er)) (replicate (cnt e r) (e, r))) rs st"
    unfolding fill_edge_def by (rule foldM_cong) (rule body)
  also have "\<dots> = foldM (\<lambda>xs. foldM (\<lambda>er. add_stub (fst er) (snd er)) xs)
                       (map (\<lambda>r. replicate (cnt e r) (e, r)) rs) st"
    by (induction rs arbitrary: st) (simp_all split: sum.splits)
  also have "\<dots> = foldM (\<lambda>er. add_stub (fst er) (snd er))
               (concat (map (\<lambda>r. replicate (cnt e r) (e, r)) rs)) st"
    by (simp only: foldM_concat)
  finally show ?thesis .
qed

lemma fill_all_steps:
  "foldM (fill_edge (map (\<lambda>k. (k, map (\<lambda>r. (r, cnt k r)) rs)) ks) rs) ks st
     = foldM (\<lambda>er. add_stub (fst er) (snd er))
             (concat (map (\<lambda>e. concat (map (\<lambda>r. replicate (cnt e r) (e, r)) rs)) ks)) st"
proof -
  let ?dims = "map (\<lambda>k. (k, map (\<lambda>r. (r, cnt k r)) rs)) ks"
  have "foldM (fill_edge ?dims rs) ks st
      = foldM (\<lambda>e. foldM (\<lambda>er. add_stub (fst er) (snd er))
                       (concat (map (\<lambda>r. replicate (cnt e r) (e, r)) rs))) ks st"
    by (rule foldM_cong) (rule fill_edge_steps)
  also have "\<dots> = foldM (\<lambda>xs. foldM (\<lambda>er. add_stub (fst er) (snd er)) xs)
                       (map (\<lambda>e. concat (map (\<lambda>r. replicate (cnt e r) (e, r)) rs)) ks) st"
    by (induction ks arbitrary: st) (simp_all split: sum.splits)
  also have "\<dots> = foldM (\<lambda>er. add_stub (fst er) (snd er))
             (concat (map (\<lambda>e. concat (map (\<lambda>r. replicate (cnt e r) (e, r)) rs)) ks)) st"
    by (simp only: foldM_concat)
  finally show ?thesis .
qed

lemma add_steps:
  assumes own: "\<forall>r q. map_of stubs r = Some q \<longrightarrow> (\<forall>t \<in> set q. snd t = r)"
    and enough: "\<forall>r. length (filter (\<lambda>er. snd er = r) steps) \<le> length (dd_get stubs r [])"
  shows "\<exists>stubs' new. foldM (\<lambda>er. add_stub (fst er) (snd er)) steps (stubs, il)
                          = Inr (stubs', il @ new) \<and>
                        map (\<lambda>x. (eid x, role x)) new = steps \<and>
                        (\<forall>x \<in> set new. meta x = None)"
  using assms
proof (induction steps arbitrary: stubs il)
  case Nil
  show ?case by simp
next
  case (Cons er steps)
  obtain e r where er: "er = (e, r)" by (cases er)
  from Cons.prems(2)[rule_format, of r] have "0 < length (dd_get stubs r [])"
    by (auto simp: er)
  then obtain t q where q: "map_of stubs r = Some (t # q)"
    by (cases "map_of stubs r"; cases "dd_get stubs r []") (auto simp: dd_get_def)
  let ?stubs1 = "AList.update r q stubs"
  let ?x = "NodeEdgeIncidence (fst t) (snd t) e None"
  have step: "add_stub e r (stubs, il) = Inr (?stubs1, il @ [?x])"
    by (simp add: add_stub_def getitem_def q)
  from Cons.prems(1) q have tr: "snd t = r" by auto
  have own1: "\<forall>r' q'. map_of ?stubs1 r' = Some q' \<longrightarrow> (\<forall>t \<in> set q'. snd t = r')"
    using Cons.prems(1) q by (auto simp: update_conv' split: if_splits)
  have enough1: "\<forall>r'. length (filter (\<lambda>er. snd er = r') steps) \<le> length (dd_get ?stubs1 r' [])"
  proof
    fix r'
    from Cons.prems(2)[rule_format, of r']
    show "length (filter (\<lambda>er. snd er = r') steps) \<le> length (dd_get ?stubs1 r' [])"
      using q by (cases "r' = r") (auto simp: er dd_get_def update_conv')
  qed
  from Cons.IH[OF own1 enough1, of "il @ [?x]"] obtain stubs' new where
    run: "foldM (\<lambda>er. add_stub (fst er) (snd er)) steps (?stubs1, il @ [?x])
            = Inr (stubs', (il @ [?x]) @ new)"
    and shape: "map (\<lambda>x. (eid x, role x)) new = steps" "\<forall>x \<in> set new. meta x = None"
    by blast
  have "foldM (\<lambda>er. add_stub (fst er) (snd er)) (er # steps) (stubs, il)
          = Inr (stubs', il @ (?x # new))"
    using run step by (simp add: er)
  moreover have "map (\<lambda>x. (eid x, role x)) (?x # new) = er # steps"
    using shape tr by (simp add: er)
  moreover have "\<forall>x \<in> set (?x # new). meta x = None" using shape by simp
  ultimately show ?case
    by (intro exI[of _ stubs'] exI[of _ "?x # new"] conjI)
qed


lemma length_filter_concat:
  "length (filter P (concat xss)) = (\<Sum>xs\<leftarrow>xss. length (filter P xs))"
  by (induction xss) simp_all

lemma sum_list_single:
  assumes "distinct xs"
  shows "(\<Sum>x\<leftarrow>xs. if x = a then (f x :: nat) else 0) = (if a \<in> set xs then f a else 0)"
  using assms by (induction xs) auto

lemma steps_count_pair:
  assumes "distinct ks" "distinct rs"
  shows "length (filter (\<lambda>er. er = (e, r))
           (concat (map (\<lambda>e. concat (map (\<lambda>r. replicate (cnt e r) (e, r)) rs)) ks)))
         = (if e \<in> set ks \<and> r \<in> set rs then cnt e r else 0)"
proof -
  have inner: "length (filter (\<lambda>er. er = (e, r)) (concat (map (\<lambda>r'. replicate (cnt e' r') (e', r')) rs)))
             = (if e' = e then (if r \<in> set rs then cnt e r else 0) else 0)" for e'
  proof -
    have "length (filter (\<lambda>er. er = (e, r)) (concat (map (\<lambda>r'. replicate (cnt e' r') (e', r')) rs)))
        = (\<Sum>r'\<leftarrow>rs. if r' = r then (if e' = e then cnt e' r' else 0) else 0)"
      unfolding length_filter_concat
      by (simp add: comp_def) (rule arg_cong[where f = sum_list], rule map_cong[OF refl], auto)
    also have "\<dots> = (if r \<in> set rs then (if e' = e then cnt e' r else 0) else 0)"
      by (rule sum_list_single[OF assms(2)])
    finally show ?thesis by auto
  qed
  have "length (filter (\<lambda>er. er = (e, r))
           (concat (map (\<lambda>e. concat (map (\<lambda>r. replicate (cnt e r) (e, r)) rs)) ks)))
      = (\<Sum>e'\<leftarrow>ks. if e' = e then (if r \<in> set rs then cnt e r else 0) else 0)"
    unfolding length_filter_concat by (simp add: comp_def inner)
  also have "\<dots> = (if e \<in> set ks then (if r \<in> set rs then cnt e r else 0) else 0)"
    by (rule sum_list_single[OF assms(1)])
  finally show ?thesis by auto
qed

lemma steps_count_role:
  assumes "distinct rs"
  shows "length (filter (\<lambda>er. snd er = r)
           (concat (map (\<lambda>e. concat (map (\<lambda>r. replicate (cnt e r) (e, r)) rs)) ks)))
         = (if r \<in> set rs then (\<Sum>e\<leftarrow>ks. cnt e r) else 0)"
proof -
  have inner: "length (filter (\<lambda>er. snd er = r) (concat (map (\<lambda>r'. replicate (cnt e' r') (e', r')) rs)))
             = (if r \<in> set rs then cnt e' r else 0)" for e'
  proof -
    have "length (filter (\<lambda>er. snd er = r) (concat (map (\<lambda>r'. replicate (cnt e' r') (e', r')) rs)))
        = (\<Sum>r'\<leftarrow>rs. if r' = r then cnt e' r' else 0)"
      unfolding length_filter_concat
      by (simp add: comp_def) (rule arg_cong[where f = sum_list], rule map_cong[OF refl], auto)
    also have "\<dots> = (if r \<in> set rs then cnt e' r else 0)"
      by (rule sum_list_single[OF assms])
    finally show ?thesis .
  qed
  show ?thesis
    unfolding length_filter_concat by (simp add: comp_def inner)
qed

lemma length_filter_disjoint:
  assumes "\<And>x. x \<in> set xs \<Longrightarrow> \<not> (A x \<and> B x)"
  shows "length (filter A xs) + length (filter B xs) = length (filter (\<lambda>x. A x \<or> B x) xs)"
  using assms by (induction xs) auto

lemma sum_length_filter_keys:
  assumes "distinct ks"
  shows "(\<Sum>e\<leftarrow>ks. length (filter (\<lambda>x. f x = e \<and> P x) xs))
         = length (filter (\<lambda>x. f x \<in> set ks \<and> P x) xs)"
  using assms
proof (induction ks)
  case Nil
  show ?case by simp
next
  case (Cons k ks)
  have "length (filter (\<lambda>x. f x = k \<and> P x) xs) + length (filter (\<lambda>x. f x \<in> set ks \<and> P x) xs)
      = length (filter (\<lambda>x. (f x = k \<and> P x) \<or> (f x \<in> set ks \<and> P x)) xs)"
    by (rule length_filter_disjoint) (use Cons.prems in auto)
  also have "\<dots> = length (filter (\<lambda>x. f x \<in> set (k # ks) \<and> P x) xs)"
    by (rule arg_cong[where f = length], rule filter_cong[OF refl]) auto
  finally show ?case using Cons by simp
qed

lemma shuffle_from_mset:
  "i < length x \<or> i = 0 \<Longrightarrow> mset (shuffle_from i rnd x) = mset x"
proof (induction i arbitrary: x)
  case 0
  show ?case by simp
next
  case (Suc i)
  then have lt: "Suc i < length x" by simp
  let ?j = "rnd (Suc i) mod (Suc i + 1)"
  have j: "?j < length x"
    using lt by (metis Suc_eq_plus1 Suc_lessI less_Suc_eq mod_less_divisor not_less_eq zero_less_Suc less_trans_Suc)
  let ?x1 = "x[Suc i := x ! ?j, ?j := x ! Suc i]"
  have "mset ?x1 = mset x" by (rule mset_swap[OF j lt])
  moreover have "i < length ?x1 \<or> i = 0" using lt by simp
  ultimately show ?case using Suc.IH[of ?x1] by (simp add: Let_def)
qed

lemma shuffle_mset: "mset (shuffle rnd x) = mset x"
  unfolding shuffle_def by (rule shuffle_from_mset) (cases x; simp)

lemma np_unique_props: "distinct (np_unique xs)" "set (np_unique xs) = set xs" "sorted (np_unique xs)"
  by (simp_all add: np_unique_def sorted_remdups)

lemma np_unique_set: "set xs = set ys \<Longrightarrow> np_unique xs = np_unique ys"
  by (rule sorted_distinct_set_unique) (simp_all add: np_unique_props)

lemma length_filter_mset:
  "mset xs = mset ys \<Longrightarrow> length (filter P xs) = length (filter P ys)"
  by (metis mset_filter size_mset)


lemma sort_IL_role:
  assumes "self_sort_key h \<noteq> Some ''role''"
  shows "mset (self_IL (sort_IL [Role] False h)) = mset (self_IL h)"
    and "sorted (map role (self_IL (sort_IL [Role] False h)))"
    and "sort_IL [Role] False h = h\<lparr>self_IL := self_IL (sort_IL [Role] False h)\<rparr>"
  using assms by (simp_all add: sort_IL_def py_sort_def sorted_role_only)

lemma edge_dimensions_by_role_eq:
  assumes dr: "distinct (self_roles h)"
    and used: "set (self_roles h) \<subseteq> role ` set (self_IL h)"
    and dk: "distinct (self_edge_list h)"
    and key: "self_sort_key h \<noteq> Some ''role''"
  shows "edge_dimensions_by_role h =
           Inr (map (\<lambda>k. (k, map (\<lambda>r. (r, length (filter (\<lambda>x. eid x = k \<and> role x = r)
                                                         (self_IL h)))) (self_roles h)))
                    (self_edge_list h),
                sort_IL [Role] False h)"
proof -
  let ?h1 = "sort_IL [Role] False h"
  have ms: "mset (self_IL ?h1) = mset (self_IL h)" by (rule sort_IL_role(1)[OF key])
  have used1: "set (self_roles ?h1) \<subseteq> role ` set (self_IL ?h1)"
    using used mset_eq_setD[OF ms] by simp
  have "by_role_counts eid (self_edge_list ?h1) ?h1 =
           Inr (map (\<lambda>k. (k, map (\<lambda>r. (r, length (filter (\<lambda>x. eid x = k \<and> role x = r)
                                                         (self_IL ?h1)))) (self_roles ?h1)))
                    (self_edge_list ?h1))"
    by (rule by_role_counts_sorted[OF sort_IL_role(2)[OF key] _ used1]) (simp_all add: dr dk)
  also have "\<dots> = Inr (map (\<lambda>k. (k, map (\<lambda>r. (r, length (filter (\<lambda>x. eid x = k \<and> role x = r)
                                                         (self_IL h)))) (self_roles h)))
                    (self_edge_list h))"
    by (simp add: length_filter_mset[OF ms])
  finally show ?thesis by (simp add: edge_dimensions_by_role_def Let_def)
qed

lemma stub_matching_dims:
  assumes dr: "distinct (self_roles h)"
    and roles: "set (map role (self_IL h)) = set (self_roles h)"
    and el: "self_edge_list h = np_unique (map eid (self_IL h))"
    and key: "self_sort_key h \<noteq> Some ''role''"
  shows "\<exists>a dims a1.
           stub_matching rnd h = Inr (a, sort_IL [Role] False h) \<and>
           edge_dimensions_by_role h = Inr (dims, sort_IL [Role] False h) \<and>
           edge_dimensions_by_role a = Inr (dims, a1) \<and>
           self_roles a = self_roles h \<and> self_edge_list a = self_edge_list h \<and>
           length (self_IL a) = length (self_IL h)"
proof -
  let ?h1 = "sort_IL [Role] False h"
  let ?il = "self_IL h" and ?rs = "self_roles h" and ?ks = "self_edge_list h"
  let ?cnt = "\<lambda>e r. length (filter (\<lambda>x. eid x = e \<and> role x = r) ?il)"
  let ?dims = "map (\<lambda>k. (k, map (\<lambda>r. (r, ?cnt k r)) ?rs)) ?ks"
  let ?steps = "concat (map (\<lambda>e. concat (map (\<lambda>r. replicate (?cnt e r) (e, r)) ?rs)) ?ks)"
  have dk: "distinct ?ks" and sk: "set ?ks = eid ` set ?il"
    by (simp_all add: el np_unique_props)
  have used: "set ?rs \<subseteq> role ` set ?il" using roles by auto
  have dims: "edge_dimensions_by_role h = Inr (?dims, ?h1)"
    by (rule edge_dimensions_by_role_eq[OF dr used dk key])
  have ms1: "mset (self_IL ?h1) = mset ?il" by (rule sort_IL_role(1)[OF key])
  \<comment> \<open>the queues of stubs\<close>
  let ?raw = "map (\<lambda>e. (nid e, role e)) (self_IL ?h1)"
  let ?sorted = "py_sort snd False (shuffle rnd ?raw)"
  let ?stubs = "dict_of (groupby ?sorted snd)"
  have ms_stubs: "mset ?sorted = mset ?raw"
    by (simp add: py_sort_def shuffle_mset)
  have srt: "sorted (map snd ?sorted)" by (simp add: py_sort_def)
  let ?present = "remdups_adj (map snd ?sorted)"
  have dp: "distinct ?present" using srt by (rule distinct_remdups_adj_sorted)
  have "distinct (map fst (groupby ?sorted snd))" using dp by (simp add: groupby_keys)
  then have stubs: "?stubs = map (\<lambda>r. (r, filter (\<lambda>t. snd t = r) ?sorted)) ?present"
    by (simp add: dict_of_distinct groupby_runs[OF dp])
  have queue: "dd_get ?stubs r [] = filter (\<lambda>t. snd t = r) ?sorted" for r
  proof (cases "r \<in> set ?present")
    case True
    then show ?thesis unfolding stubs by (simp add: dd_get_map_of[OF map_of_keyed])
  next
    case False
    then have "map_of (map (\<lambda>r. (r, filter (\<lambda>t. snd t = r) ?sorted)) ?present) r = None"
      by (simp add: map_of_eq_None_iff image_image)
    moreover from False have "filter (\<lambda>t. snd t = r) ?sorted = []"
      by (auto simp: filter_empty_conv remdups_adj_set)
    ultimately show ?thesis unfolding stubs by (simp add: dd_get_def)
  qed
  have own: "\<forall>r q. map_of ?stubs r = Some q \<longrightarrow> (\<forall>t \<in> set q. snd t = r)"
  proof (intro allI impI)
    fix r q assume "map_of ?stubs r = Some q"
    then have "dd_get ?stubs r [] = q" by (rule dd_get_map_of)
    then have "q = filter (\<lambda>t. snd t = r) ?sorted" by (simp only: queue)
    then show "\<forall>t \<in> set q. snd t = r" by simp
  qed
  have qlen: "length (dd_get ?stubs r []) = length (filter (\<lambda>x. role x = r) ?il)" for r
  proof -
    have "length (filter (\<lambda>t. snd t = r) ?sorted) = length (filter (\<lambda>t. snd t = r) ?raw)"
      by (rule length_filter_mset[OF ms_stubs])
    also have "\<dots> = length (filter (\<lambda>x. role x = r) (self_IL ?h1))"
      by (simp add: filter_map comp_def)
    also have "\<dots> = length (filter (\<lambda>x. role x = r) ?il)"
      by (rule length_filter_mset[OF ms1])
    finally show ?thesis by (simp only: queue)
  qed
  have per_role: "(\<Sum>e\<leftarrow>?ks. ?cnt e r) = length (filter (\<lambda>x. role x = r) ?il)" for r
  proof -
    have "(\<Sum>e\<leftarrow>?ks. ?cnt e r) = length (filter (\<lambda>x. eid x \<in> set ?ks \<and> role x = r) ?il)"
      by (rule sum_length_filter_keys[OF dk])
    also have "\<dots> = length (filter (\<lambda>x. role x = r) ?il)"
      by (rule arg_cong[where f = length], rule filter_cong[OF refl]) (simp add: sk)
    finally show ?thesis .
  qed
  have enough: "\<forall>r. length (filter (\<lambda>er. snd er = r) ?steps) \<le> length (dd_get ?stubs r [])"
    unfolding steps_count_role[OF dr] qlen per_role by simp
  from add_steps[OF own enough, of "[]"] obtain stubs' new where
    run: "foldM (\<lambda>er. add_stub (fst er) (snd er)) ?steps (?stubs, []) = Inr (stubs', new)"
    and shape: "map (\<lambda>x. (eid x, role x)) new = ?steps"
    by auto
  let ?a = "set_states (?h1\<lparr>self_IL := new\<rparr>)"
  have fill: "foldM (fill_edge ?dims (self_roles ?h1)) (map fst ?dims) (?stubs, []) = Inr (stubs', new)"
    using fill_all_steps[of ?cnt ?rs ?ks "(?stubs, [])"] run by (simp add: comp_def)
  have sm: "stub_matching rnd h = Inr (?a, ?h1)"
    unfolding stub_matching_def dims using fill by (simp add: Let_def)
  \<comment> \<open>the counts of the new list\<close>
  have cnt_new: "length (filter (\<lambda>x. eid x = e \<and> role x = r) new)
               = (if e \<in> set ?ks \<and> r \<in> set ?rs then ?cnt e r else 0)" for e r
  proof -
    have "length (filter (\<lambda>x. eid x = e \<and> role x = r) new)
        = length (filter (\<lambda>er. er = (e, r)) (map (\<lambda>x. (eid x, role x)) new))"
      by (simp add: filter_map comp_def)
    then show ?thesis unfolding shape steps_count_pair[OF dk dr] .
  qed
  have role_new: "length (filter (\<lambda>x. role x = r) new)
               = (if r \<in> set ?rs then length (filter (\<lambda>x. role x = r) ?il) else 0)" for r
  proof -
    have "length (filter (\<lambda>x. role x = r) new)
        = length (filter (\<lambda>er. snd er = r) (map (\<lambda>x. (eid x, role x)) new))"
      by (simp add: filter_map comp_def)
    then show ?thesis unfolding shape steps_count_role[OF dr] per_role .
  qed
  have used_new: "set ?rs \<subseteq> role ` set new"
  proof
    fix r assume r: "r \<in> set ?rs"
    with used obtain x where "x \<in> set ?il" "role x = r" by auto
    then have "filter (\<lambda>x. role x = r) ?il \<noteq> []" by (auto simp: filter_empty_conv)
    with role_new[of r] r have "filter (\<lambda>x. role x = r) new \<noteq> []" by auto
    then show "r \<in> role ` set new" by (auto simp: filter_empty_conv)
  qed
  have eids_new: "eid ` set new = eid ` set ?il"
  proof
    show "eid ` set new \<subseteq> eid ` set ?il"
    proof
      fix e assume "e \<in> eid ` set new"
      then obtain x where x: "x \<in> set new" "eid x = e" by auto
      then have "filter (\<lambda>y. eid y = e \<and> role y = role x) new \<noteq> []"
        by (auto simp: filter_empty_conv)
      with cnt_new[of e "role x"] have "e \<in> set ?ks" by (auto split: if_splits)
      then show "e \<in> eid ` set ?il" by (simp add: sk)
    qed
    show "eid ` set ?il \<subseteq> eid ` set new"
    proof
      fix e assume "e \<in> eid ` set ?il"
      then obtain x where x: "x \<in> set ?il" "eid x = e" by auto
      with roles have rx: "role x \<in> set ?rs" by auto
      from x have "filter (\<lambda>y. eid y = e \<and> role y = role x) ?il \<noteq> []"
        by (auto simp: filter_empty_conv)
      moreover have "e \<in> set ?ks" using x by (auto simp: sk)
      ultimately have "filter (\<lambda>y. eid y = e \<and> role y = role x) new \<noteq> []"
        using cnt_new[of e "role x"] rx by auto
      then show "e \<in> eid ` set new" by (auto simp: filter_empty_conv)
    qed
  qed
  have ks_a: "self_edge_list ?a = ?ks"
    unfolding el by (simp add: set_states_def Let_def) (rule np_unique_set, simp add: eids_new)
  have rs_a: "self_roles ?a = ?rs" by simp
  have il_a: "self_IL ?a = new" by simp
  have "edge_dimensions_by_role ?a =
           Inr (map (\<lambda>k. (k, map (\<lambda>r. (r, length (filter (\<lambda>x. eid x = k \<and> role x = r)
                                                         (self_IL ?a)))) (self_roles ?a)))
                    (self_edge_list ?a),
                sort_IL [Role] False ?a)"
  proof (rule edge_dimensions_by_role_eq)
    show "distinct (self_roles ?a)" using dr by simp
    show "set (self_roles ?a) \<subseteq> role ` set (self_IL ?a)" using used_new by simp
    show "distinct (self_edge_list ?a)" unfolding ks_a by (rule dk)
    show "self_sort_key ?a \<noteq> Some ''role''" by simp
  qed
  also have "map (\<lambda>k. (k, map (\<lambda>r. (r, length (filter (\<lambda>x. eid x = k \<and> role x = r)
                                                         (self_IL ?a)))) (self_roles ?a)))
                    (self_edge_list ?a) = ?dims"
    unfolding ks_a rs_a il_a by (simp add: cnt_new)
  finally have dims_a: "edge_dimensions_by_role ?a = Inr (?dims, sort_IL [Role] False ?a)" .
  have len: "length (self_IL ?a) = length ?il"
  proof -
    have "length new = (\<Sum>r\<leftarrow>?rs. length (filter (\<lambda>x. role x = r) new))"
    proof -
      have "(\<Sum>r\<leftarrow>?rs. length (filter (\<lambda>x. role x = r \<and> True) new))
          = length (filter (\<lambda>x. role x \<in> set ?rs \<and> True) new)"
        by (rule sum_length_filter_keys[OF dr])
      moreover have "role x \<in> set ?rs" if x: "x \<in> set new" for x
      proof (rule ccontr)
        assume n: "role x \<notin> set ?rs"
        from x have "filter (\<lambda>y. role y = role x) new \<noteq> []" by (auto simp: filter_empty_conv)
        with role_new[of "role x"] n show False by simp
      qed
      then have "filter (\<lambda>x. role x \<in> set ?rs \<and> True) new = new"
        by (auto intro: filter_True)
      ultimately show ?thesis by simp
    qed
    also have "\<dots> = (\<Sum>r\<leftarrow>?rs. length (filter (\<lambda>x. role x = r) ?il))"
      by (rule arg_cong[where f = sum_list], rule map_cong[OF refl]) (simp add: role_new)
    also have "\<dots> = length ?il"
    proof -
      have "(\<Sum>r\<leftarrow>?rs. length (filter (\<lambda>x. role x = r \<and> True) ?il))
          = length (filter (\<lambda>x. role x \<in> set ?rs \<and> True) ?il)"
        by (rule sum_length_filter_keys[OF dr])
      moreover have "filter (\<lambda>x. role x \<in> set ?rs \<and> True) ?il = ?il"
        using roles by (auto intro: filter_True)
      ultimately show ?thesis by simp
    qed
    finally show ?thesis by (simp only: il_a)
  qed
  from sm dims dims_a rs_a ks_a len show ?thesis by blast
qed

lemma ex_two_four_ready:
  "distinct (self_roles ex_two_four)"
  "set (map role (self_IL ex_two_four)) = set (self_roles ex_two_four)"
  "self_edge_list ex_two_four = np_unique (map eid (self_IL ex_two_four))"
  "self_sort_key ex_two_four \<noteq> Some ''role''"
  by code_simp+

lemma ex_two_four_dims:
  "map_sum id fst (edge_dimensions_by_role ex_two_four)
     = Inr [(0, [(0, 1), (1, 2)]), (1, [(0, 1), (1, 2)])]"
  by code_simp


text \<open>
  C6, as stated, fails: on a hypergraph with a declared role that no incidence holds,
  \<^verbatim>\<open>stub_matching\<close> raises KeyError instead of returning; and where it returns, the incidence
  list of the store it was called on is no longer the list it was.
\<close>

theorem C6_counterexample:
  "stub_matching ex_rnd ex_unused_role = Inl KeyError \<and>
   map_sum id (\<lambda>ah. self_IL (snd ah) = self_IL ex_two_four) (stub_matching ex_rnd ex_two_four)
     = Inr False"
  by code_simp

text \<open>
  C6, amended. On a store whose declared roles are distinct, each held by at least one
  incidence, whose incidences all hold a declared role, whose \<^verbatim>\<open>edge_list\<close> is current and
  whose tracked sort key is not \<^verbatim>\<open>"role"\<close>, \<^verbatim>\<open>stub_matching\<close> returns, for every outcome of the
  shuffle, a hypergraph whose \<^verbatim>\<open>edge_dimensions(by_role=True)\<close> is the one of the input, for
  every edge and every role; it has the roles, the edge list and the number of incidences of
  the input. The store it was called on keeps every attribute but the order of its incidence
  list, which is left sorted by role with the same incidences.
\<close>

theorem C6:
  assumes "distinct (self_roles h)"
    and "set (map role (self_IL h)) = set (self_roles h)"
    and "self_edge_list h = np_unique (map eid (self_IL h))"
    and "self_sort_key h \<noteq> Some ''role''"
  shows "\<exists>a dims a1 h1.
           stub_matching rnd h = Inr (a, h1) \<and>
           edge_dimensions_by_role h = Inr (dims, h1) \<and>
           edge_dimensions_by_role a = Inr (dims, a1) \<and>
           self_roles a = self_roles h \<and> self_edge_list a = self_edge_list h \<and>
           length (self_IL a) = length (self_IL h) \<and>
           h1 = h\<lparr>self_IL := self_IL h1\<rparr> \<and>
           mset (self_IL h1) = mset (self_IL h) \<and>
           sorted (map role (self_IL h1))"
  using stub_matching_dims[OF assms, of rnd] sort_IL_role[OF assms(4)] by blast

theorem C6_witness:
  "distinct (self_roles ex_two_four) \<and>
   set (map role (self_IL ex_two_four)) = set (self_roles ex_two_four) \<and>
   self_edge_list ex_two_four = np_unique (map eid (self_IL ex_two_four)) \<and>
   self_sort_key ex_two_four \<noteq> Some ''role'' \<and>
   (\<exists>a h1 a1. stub_matching ex_rnd ex_two_four = Inr (a, h1) \<and>
      edge_dimensions_by_role a = Inr ([(0, [(0, 1), (1, 2)]), (1, [(0, 1), (1, 2)])], a1) \<and>
      mset (self_IL h1) = mset (self_IL ex_two_four))"
proof -
  from C6[OF ex_two_four_ready, of ex_rnd] obtain a dims a1 h1 where
    1: "stub_matching ex_rnd ex_two_four = Inr (a, h1)" and
    2: "edge_dimensions_by_role ex_two_four = Inr (dims, h1)" and
    3: "edge_dimensions_by_role a = Inr (dims, a1)" and
    4: "mset (self_IL h1) = mset (self_IL ex_two_four)"
    by blast
  from 2 ex_two_four_dims have "dims = [(0, [(0, 1), (1, 2)]), (1, [(0, 1), (1, 2)])]"
    by simp
  with 1 3 4 ex_two_four_ready show ?thesis by blast
qed

end
